theory Spec2Isabelle
  imports Main "HOL-Library.Sublist" "HOL-Library.Char_ord" "HOL-Library.List_Lexorder"
    "HOL-Library.AList"
begin

section \<open>Data model\<close>

text \<open>
  The exceptions that \<^verbatim>\<open>q2_fondue/sequences.py\<close> can raise. \<open>ValueError\<close> carries its
  message.
\<close>

datatype error =
    AttributeError
  | IndexError
  | FileNotFoundError
  | UnboundLocalError
  | ValueError string

text \<open>
  A directory is a flat listing of regular files: name and text content, in the order
  \<^verbatim>\<open>os.listdir\<close> reports them. Every theorem below is stated for an arbitrary listing, so
  no particular order is assumed. The content of a file is its text after decompression
  and decoding; compression is lossless and is not modelled. Accessions containing a path
  separator are outside the model.
\<close>

type_synonym dir = "(string \<times> string) list"

definition listdir :: "dir \<Rightarrow> string list" where
  "listdir d = map fst d"

definition isfile :: "dir \<Rightarrow> string \<Rightarrow> bool" where
  "isfile d name = (name \<in> set (listdir d))"

text \<open>The \<^verbatim>\<open>CompletedProcess\<close> that \<^verbatim>\<open>subprocess.run\<close> returns.\<close>

record completed =
  returncode :: int
  stdout :: string
  stderr :: string

text \<open>
  The world the program runs in: the scratch directory and whatever else an external
  command can read and change (network, archive, clock), kept abstract.
\<close>

record 'e world =
  scratch :: dir
  outside :: 'e

text \<open>
  The external retrieval tool is a parameter: invoked as
  \<^verbatim>\<open>fasterq-dump -O dir -t dir -e threads acc\<close> it returns a completed process and a
  changed world. Nothing is assumed about it.
\<close>

type_synonym 'e tool = "string \<Rightarrow> int \<Rightarrow> 'e world \<Rightarrow> completed \<times> 'e world"

section \<open>Retrieval Runner\<close>

text \<open>
  The test of lines 42-43: does \<^verbatim>\<open>acc.fastq\<close> or \<^verbatim>\<open>acc_1.fastq\<close> exist in the scratch
  directory.
\<close>

definition fastq_present :: "string \<Rightarrow> 'e world \<Rightarrow> bool" where
  "fastq_present acc w =
     (isfile (scratch w) (acc @ ''.fastq'') \<or> isfile (scratch w) (acc @ ''_1.fastq''))"

text \<open>
  The \<^verbatim>\<open>while retries >= 0\<close> loop of lines 39-47. The local variable \<^verbatim>\<open>result\<close> is unbound
  (\<open>None\<close>) until the first invocation. Besides the final \<^verbatim>\<open>result\<close> and world the function
  returns a log with one entry per invocation of the tool: the value of the file test
  that followed it.
\<close>

function fasterq_loop ::
  "'e tool \<Rightarrow> string \<Rightarrow> int \<Rightarrow> int \<Rightarrow> completed option \<Rightarrow> 'e world
     \<Rightarrow> completed option \<times> 'e world \<times> bool list" where
  "fasterq_loop tool acc threads retries result w =
     (if retries \<ge> 0 then
        (case tool acc threads w of (res, w') \<Rightarrow>
           (case fasterq_loop tool acc threads
                   (if \<not> fastq_present acc w' then retries - 1 else - 1) (Some res) w'
            of (r, w'', log) \<Rightarrow> (r, w'', fastq_present acc w' # log)))
      else (result, w, []))"
  by pat_completeness auto
termination
  by (relation "measure (\<lambda>(tool, acc, threads, retries, result, w). nat (retries + 1))") auto

text \<open>\<^verbatim>\<open>_run_cmd_fasterq\<close>: \<^verbatim>\<open>return result\<close> fails when \<^verbatim>\<open>result\<close> was never bound.\<close>

definition run_cmd_fasterq ::
  "'e tool \<Rightarrow> string \<Rightarrow> int \<Rightarrow> int \<Rightarrow> 'e world \<Rightarrow> error + (completed \<times> 'e world)" where
  "run_cmd_fasterq tool acc threads retries w =
     (case fasterq_loop tool acc threads retries None w of
        (None, w', log) \<Rightarrow> Inl UnboundLocalError
      | (Some result, w', log) \<Rightarrow> Inr (result, w'))"

text \<open>The world after \<open>k\<close> invocations of the tool in a row.\<close>

definition after_calls :: "'e tool \<Rightarrow> string \<Rightarrow> int \<Rightarrow> nat \<Rightarrow> 'e world \<Rightarrow> 'e world" where
  "after_calls tool acc threads k w = ((\<lambda>v. snd (tool acc threads v)) ^^ k) w"

section \<open>Batch Fetcher\<close>

text \<open>The message of the \<^verbatim>\<open>ValueError\<close> of lines 63-66.\<close>

definition download_error :: "string \<Rightarrow> string \<Rightarrow> error" where
  "download_error acc err =
     ValueError (acc @ '' could not be downloaded with the following fasterq-dump error returned: ''
                   @ err)"

text \<open>\<^verbatim>\<open>_run_fasterq_dump_for_all\<close>: the loop over the accessions, lines 57-68.\<close>

fun run_fasterq_dump_for_all ::
  "'e tool \<Rightarrow> string list \<Rightarrow> int \<Rightarrow> int \<Rightarrow> 'e world \<Rightarrow> error + 'e world" where
  "run_fasterq_dump_for_all tool [] threads general_retries w = Inr w"
| "run_fasterq_dump_for_all tool (acc # rest) threads general_retries w =
     (case run_cmd_fasterq tool acc threads general_retries w of
        Inl e \<Rightarrow> Inl e
      | Inr (result, w') \<Rightarrow>
          if length (listdir (scratch w')) = 0
          then Inl (download_error acc (stderr result))
          else run_fasterq_dump_for_all tool rest threads general_retries w')"

text \<open>
  The retrievals of a batch taken by themselves: the result and the world after each
  accession's Retrieval Runner, each started in the world the previous one left, with no
  emptiness check in between.
\<close>

fun retrievals ::
  "'e tool \<Rightarrow> string list \<Rightarrow> int \<Rightarrow> int \<Rightarrow> 'e world \<Rightarrow> (completed \<times> 'e world) list" where
  "retrievals tool [] threads general_retries w = []"
| "retrievals tool (acc # rest) threads general_retries w =
     (case run_cmd_fasterq tool acc threads general_retries w of
        Inl e \<Rightarrow> []
      | Inr (result, w') \<Rightarrow> (result, w') # retrievals tool rest threads general_retries w')"

section \<open>File Classifier/Renamer\<close>

abbreviation LF :: char where
  "LF \<equiv> CHR 0x0A"

abbreviation CR :: char where
  "CR \<equiv> CHR 0x0D"

text \<open>\<^verbatim>\<open>str.endswith\<close>.\<close>

definition endswith :: "string \<Rightarrow> string \<Rightarrow> bool" where
  "endswith s suf = (length suf \<le> length s \<and> drop (length s - length suf) s = suf)"

text \<open>
  The three patterns of lines 93, 98 and 103 have the shape \<^verbatim>\<open>(.*)lit$\<close> for a literal
  \<open>lit\<close>. In Python \<^verbatim>\<open>.\<close> matches every character but the line feed, \<^verbatim>\<open>*\<close> is greedy and
  backtracks, and \<^verbatim>\<open>$\<close> matches at the end of the string and before a line feed that ends
  the string.
\<close>

definition lit_at_end :: "string \<Rightarrow> string \<Rightarrow> bool" where
  "lit_at_end lit s = (s = lit \<or> s = lit @ [LF])"

text \<open>The match of \<^verbatim>\<open>(.*)lit$\<close> that starts at the head of the string: its group 1.\<close>

fun match_here :: "string \<Rightarrow> string \<Rightarrow> string option" where
  "match_here lit [] = (if lit_at_end lit [] then Some [] else None)"
| "match_here lit (c # cs) =
     (case (if c \<noteq> LF then match_here lit cs else None) of
        Some g \<Rightarrow> Some (c # g)
      | None \<Rightarrow> if lit_at_end lit (c # cs) then Some [] else None)"

text \<open>\<^verbatim>\<open>re.search\<close>: the match at the leftmost start position that has one.\<close>

fun re_search :: "string \<Rightarrow> string \<Rightarrow> string option" where
  "re_search lit [] = match_here lit []"
| "re_search lit (c # cs) =
     (case match_here lit (c # cs) of
        Some g \<Rightarrow> Some g
      | None \<Rightarrow> re_search lit cs)"

text \<open>\<^verbatim>\<open>re.search(...).group(1)\<close>: with no match the attribute access fails on \<^verbatim>\<open>None\<close>.\<close>

definition group1 :: "string \<Rightarrow> string \<Rightarrow> error + string" where
  "group1 lit s = (case re_search lit s of None \<Rightarrow> Inl AttributeError | Some g \<Rightarrow> Inr g)"

datatype read_kind = Single | Paired

text \<open>Lines 91-105: the list a file goes to and its new name.\<close>

definition classify :: "string \<Rightarrow> error + (read_kind \<times> string)" where
  "classify filename =
     (if endswith filename ''_1.fastq.gz'' then
        (case group1 ''_1.fastq.gz'' filename of
           Inl e \<Rightarrow> Inl e
         | Inr acc \<Rightarrow> Inr (Paired, acc @ ''_00_L001_R1_001.fastq.gz''))
      else if endswith filename ''_2.fastq.gz'' then
        (case group1 ''_2.fastq.gz'' filename of
           Inl e \<Rightarrow> Inl e
         | Inr acc \<Rightarrow> Inr (Paired, acc @ ''_00_L001_R2_001.fastq.gz''))
      else
        (case group1 ''.fastq.gz'' filename of
           Inl e \<Rightarrow> Inl e
         | Inr acc \<Rightarrow> Inr (Single, acc @ ''_00_L001_R1_001.fastq.gz'')))"

text \<open>
  \<^verbatim>\<open>os.rename\<close> inside one directory: a missing source fails, an existing destination is
  replaced.
\<close>

definition rename :: "dir \<Rightarrow> string \<Rightarrow> string \<Rightarrow> error + dir" where
  "rename d src dst =
     (if \<not> isfile d src then Inl FileNotFoundError
      else if src = dst then Inr d
      else Inr (map (\<lambda>(name, content). if name = src then (dst, content) else (name, content))
                  (filter (\<lambda>(name, content). name \<noteq> dst) d)))"

text \<open>The loop of lines 90-108 over the listing taken before the first rename.\<close>

fun rename_loop ::
  "string list \<Rightarrow> string list \<Rightarrow> string list \<Rightarrow> dir \<Rightarrow> error + (string list \<times> string list \<times> dir)"
  where
  "rename_loop [] ls_single ls_paired d = Inr (ls_single, ls_paired, d)"
| "rename_loop (filename # rest) ls_single ls_paired d =
     (case classify filename of
        Inl e \<Rightarrow> Inl e
      | Inr (kind, new_name) \<Rightarrow>
          (case rename d filename new_name of
             Inl e \<Rightarrow> Inl e
           | Inr d' \<Rightarrow>
               (case kind of
                  Paired \<Rightarrow> rename_loop rest ls_single (ls_paired @ [new_name]) d'
                | Single \<Rightarrow> rename_loop rest (ls_single @ [new_name]) ls_paired d')))"

text \<open>
  \<^verbatim>\<open>_process_downloaded_sequences\<close>. The compression pass \<^verbatim>\<open>gzip -r dir\<close> is an external
  command and a parameter; its completed process is discarded.
\<close>

definition process_downloaded_sequences ::
  "('e world \<Rightarrow> 'e world) \<Rightarrow> 'e world \<Rightarrow> error + (string list \<times> string list \<times> 'e world)" where
  "process_downloaded_sequences gzip w =
     (let w1 = gzip w in
      case rename_loop (listdir (scratch w1)) [] [] (scratch w1) of
        Inl e \<Rightarrow> Inl e
      | Inr (ls_single, ls_paired, d) \<Rightarrow> Inr (ls_single, ls_paired, w1\<lparr>scratch := d\<rparr>))"

section \<open>Record Reader\<close>

text \<open>
  Iterating a file opened in text mode: universal newlines, so a line ends at \<^verbatim>\<open>\n\<close>,
  \<^verbatim>\<open>\r\<close> or \<^verbatim>\<open>\r\n\<close> and is returned with the ending \<^verbatim>\<open>\n\<close>; a last line without an
  ending is returned as it is. The flag says that the character before was \<^verbatim>\<open>\r\<close>.
\<close>

fun split_lines :: "bool \<Rightarrow> string \<Rightarrow> string \<Rightarrow> string list" where
  "split_lines pendingcr cur [] = (if cur = [] then [] else [cur])"
| "split_lines pendingcr cur (c # cs) =
     (if c = LF then
        (if pendingcr then split_lines False cur cs
         else (cur @ [LF]) # split_lines False [] cs)
      else if c = CR then (cur @ [LF]) # split_lines True [] cs
      else split_lines False (cur @ [c]) cs)"

definition readlines :: "string \<Rightarrow> string list" where
  "readlines content = split_lines False [] content"

text \<open>\<^verbatim>\<open>str.isspace\<close> on the code points below 256, and \<^verbatim>\<open>str.strip\<close>.\<close>

definition isspace :: "char \<Rightarrow> bool" where
  "isspace c =
     (c \<in> set [CHR 0x09, CHR 0x0A, CHR 0x0B, CHR 0x0C, CHR 0x0D, CHR 0x1C, CHR 0x1D, CHR 0x1E,
                CHR 0x1F, CHR 0x20, CHR 0x85, CHR 0xA0])"

definition strip :: "string \<Rightarrow> string" where
  "strip s = rev (dropWhile isspace (rev (dropWhile isspace s)))"

text \<open>
  A generator: it yields values one at a time and ends by stopping or by raising.
\<close>

datatype 'a gen = Stop | Raise error | Yield 'a "'a gen"

text \<open>
  \<^verbatim>\<open>itertools.zip_longest(*[fh] * 4)\<close>: groups of four taken from one iterator, the last
  group filled with \<^verbatim>\<open>None\<close>.
\<close>

fun zip_longest4 :: "'a list \<Rightarrow> ('a option \<times> 'a option \<times> 'a option \<times> 'a option) list" where
  "zip_longest4 [] = []"
| "zip_longest4 [a] = [(Some a, None, None, None)]"
| "zip_longest4 [a, b] = [(Some a, Some b, None, None)]"
| "zip_longest4 [a, b, c] = [(Some a, Some b, Some c, None)]"
| "zip_longest4 (a # b # c # d # rest) = (Some a, Some b, Some c, Some d) # zip_longest4 rest"

text \<open>The call \<^verbatim>\<open>x.strip()\<close>: \<^verbatim>\<open>None\<close> has no such method.\<close>

definition strip_method :: "string option \<Rightarrow> error + string" where
  "strip_method x = (case x of None \<Rightarrow> Inl AttributeError | Some s \<Rightarrow> Inr (strip s))"

type_synonym fastq_rec = "string \<times> string \<times> string \<times> string"

text \<open>The body of the \<^verbatim>\<open>for\<close> loop of lines 119-121, group by group.\<close>

fun read_groups ::
  "(string option \<times> string option \<times> string option \<times> string option) list \<Rightarrow> fastq_rec gen" where
  "read_groups [] = Stop"
| "read_groups ((seq_header, seq, qual_header, qual) # rest) =
     (case strip_method seq_header of Inl e \<Rightarrow> Raise e | Inr a \<Rightarrow>
      case strip_method seq of Inl e \<Rightarrow> Raise e | Inr b \<Rightarrow>
      case strip_method qual_header of Inl e \<Rightarrow> Raise e | Inr c \<Rightarrow>
      case strip_method qual of Inl e \<Rightarrow> Raise e | Inr d \<Rightarrow>
        Yield (a, b, c, d) (read_groups rest))"

definition read_content :: "string \<Rightarrow> fastq_rec gen" where
  "read_content content = read_groups (zip_longest4 (readlines content))"

text \<open>\<^verbatim>\<open>_read_fastq_seqs\<close>: the file is opened when the first record is asked for.\<close>

definition read_fastq_seqs :: "dir \<Rightarrow> string \<Rightarrow> fastq_rec gen" where
  "read_fastq_seqs d filepath =
     (case map_of d filepath of
        None \<Rightarrow> Raise FileNotFoundError
      | Some content \<Rightarrow> read_content content)"

section \<open>Casava Writer\<close>

text \<open>\<^verbatim>\<open>'\n'.join(rec) + '\n'\<close>.\<close>

definition join_rec :: "fastq_rec \<Rightarrow> string" where
  "join_rec r = (case r of (a, b, c, d) \<Rightarrow> a @ [LF] @ b @ [LF] @ c @ [LF] @ d @ [LF])"

text \<open>
  Lines 138-139: every record of the generator is appended to the open file. What was
  written stays in the file when the generator raises.
\<close>

fun write_records :: "fastq_rec gen \<Rightarrow> string \<Rightarrow> string \<times> error option" where
  "write_records Stop out = (out, None)"
| "write_records (Raise e) out = (out, Some e)"
| "write_records (Yield r g) out = write_records g (out @ join_rec r)"

text \<open>The loop of lines 132-139 over the listing of the scratch directory.\<close>

fun single_loop :: "dir \<Rightarrow> string list \<Rightarrow> string list \<Rightarrow> dir \<Rightarrow> dir \<times> error option" where
  "single_loop tmp ls [] casava = (casava, None)"
| "single_loop tmp ls (filename # rest) casava =
     (if filename \<in> set ls then
        (case write_records (read_fastq_seqs tmp filename) [] of
           (content, err) \<Rightarrow>
             (case err of
                None \<Rightarrow> single_loop tmp ls rest (AList.update filename content casava)
              | Some e \<Rightarrow> (AList.update filename content casava, Some e)))
      else single_loop tmp ls rest casava)"

definition write2casava_dir_single :: "dir \<Rightarrow> dir \<Rightarrow> string list \<Rightarrow> dir \<times> error option" where
  "write2casava_dir_single tmp casava ls_files_2_consider =
     single_loop tmp ls_files_2_consider (listdir tmp) casava"

text \<open>The built-in \<^verbatim>\<open>zip\<close> of two generators: the first is asked before the second.\<close>

fun zip_gen :: "'a gen \<Rightarrow> 'b gen \<Rightarrow> ('a \<times> 'b) gen" where
  "zip_gen Stop h = Stop"
| "zip_gen (Raise e) h = Raise e"
| "zip_gen (Yield a g) Stop = Stop"
| "zip_gen (Yield a g) (Raise e) = Raise e"
| "zip_gen (Yield a g) (Yield b h) = Yield (a, b) (zip_gen g h)"

text \<open>Lines 167-169: the two open files grow together.\<close>

fun write_pairs ::
  "(fastq_rec \<times> fastq_rec) gen \<Rightarrow> string \<Rightarrow> string \<Rightarrow> (string \<times> string) \<times> error option" where
  "write_pairs Stop fwd rv = ((fwd, rv), None)"
| "write_pairs (Raise e) fwd rv = ((fwd, rv), Some e)"
| "write_pairs (Yield (fwd_rec, rev_rec) g) fwd rv =
     write_pairs g (fwd @ join_rec fwd_rec) (rv @ join_rec rev_rec)"

text \<open>
  Lines 158-169, the work on one pair of names: both destination files are opened for
  writing, then the zipped records are written.
\<close>

definition write_pair :: "dir \<Rightarrow> string \<Rightarrow> string \<Rightarrow> dir \<Rightarrow> dir \<times> error option" where
  "write_pair tmp filename_1 filename_2 casava =
     (case write_pairs (zip_gen (read_fastq_seqs tmp filename_1) (read_fastq_seqs tmp filename_2))
             [] [] of
        ((fwd, rv), err) \<Rightarrow>
          (AList.update filename_2 rv (AList.update filename_1 fwd casava), err))"

text \<open>\<^verbatim>\<open>range(0, n, 2)\<close>.\<close>

definition range_step2 :: "nat \<Rightarrow> nat list" where
  "range_step2 n = map (\<lambda>k. 2 * k) [0..<(n + 1) div 2]"

text \<open>The loop of lines 154-169; an index past the end of the list raises.\<close>

fun double_loop :: "dir \<Rightarrow> string list \<Rightarrow> nat list \<Rightarrow> dir \<Rightarrow> dir \<times> error option" where
  "double_loop tmp ls [] casava = (casava, None)"
| "double_loop tmp ls (i # rest) casava =
     (if \<not> i < length ls then (casava, Some IndexError)
      else if \<not> i + 1 < length ls then (casava, Some IndexError)
      else
        (case write_pair tmp (ls ! i) (ls ! (i + 1)) casava of
           (casava', None) \<Rightarrow> double_loop tmp ls rest casava'
         | (casava', Some e) \<Rightarrow> (casava', Some e)))"

definition write2casava_dir_double :: "dir \<Rightarrow> dir \<Rightarrow> string list \<Rightarrow> dir \<times> error option" where
  "write2casava_dir_double tmp casava ls_files_2_consider =
     (let ls_files_sorted = sort ls_files_2_consider
      in double_loop tmp ls_files_sorted (range_step2 (length ls_files_sorted)) casava)"

section \<open>Top-level Orchestrator\<close>

text \<open>
  \<^verbatim>\<open>get_sequences\<close>: both containers start empty, the scratch directory is fresh, and an
  exception of any step ends the run. A placeholder is a file opened for writing and
  closed at once.
\<close>

definition get_sequences ::
  "'e tool \<Rightarrow> ('e world \<Rightarrow> 'e world) \<Rightarrow> string list \<Rightarrow> int \<Rightarrow> int \<Rightarrow> 'e world
     \<Rightarrow> error + (dir \<times> dir)" where
  "get_sequences tool gzip sample_ids general_retries threads w =
     (case run_fasterq_dump_for_all tool sample_ids threads general_retries (w\<lparr>scratch := []\<rparr>) of
        Inl e \<Rightarrow> Inl e
      | Inr w1 \<Rightarrow>
     (case process_downloaded_sequences gzip w1 of
        Inl e \<Rightarrow> Inl e
      | Inr (ls_single_files, ls_paired_files, w2) \<Rightarrow>
     (case (if length ls_single_files = 0
            then (AList.update ''xxx_00_L001_R1_001.fastq.gz'' [] [], None)
            else write2casava_dir_single (scratch w2) [] ls_single_files) of
        (casava_out_single, Some e) \<Rightarrow> Inl e
      | (casava_out_single, None) \<Rightarrow>
     (case (if length ls_paired_files = 0
            then (AList.update ''xxx_00_L001_R2_001.fastq.gz'' []
                    (AList.update ''xxx_00_L001_R1_001.fastq.gz'' [] []), None)
            else write2casava_dir_double (scratch w2) [] ls_paired_files) of
        (casava_out_double, Some e) \<Rightarrow> Inl e
      | (casava_out_double, None) \<Rightarrow> Inr (casava_out_single, casava_out_double)))))"

section \<open>Example environments\<close>

text \<open>
  Concrete tools and worlds on which the theorems below are run: a tool that never
  produces a file and exits with a given code, and a world with an empty scratch
  directory.
\<close>

definition tool_nothing :: "int \<Rightarrow> unit tool" where
  "tool_nothing rc acc threads w = (\<lparr>returncode = rc, stdout = [], stderr = ''no data''\<rparr>, w)"

definition empty_world :: "unit world" where
  "empty_world = \<lparr>scratch = [], outside = ()\<rparr>"

section \<open>Observations on generators and files\<close>

text \<open>What a generator yields before it ends, and how it ends (\<open>None\<close>: it stops).\<close>

fun yielded :: "'a gen \<Rightarrow> 'a list" where
  "yielded Stop = []"
| "yielded (Raise e) = []"
| "yielded (Yield a g) = a # yielded g"

fun outcome :: "'a gen \<Rightarrow> error option" where
  "outcome Stop = None"
| "outcome (Raise e) = Some e"
| "outcome (Yield a g) = outcome g"

text \<open>The generator that yields the elements of a list and then ends as given.\<close>

fun gen_of :: "'a list \<Rightarrow> 'a gen \<Rightarrow> 'a gen" where
  "gen_of [] fin = fin"
| "gen_of (x # xs) fin = Yield x (gen_of xs fin)"

text \<open>
  The records of a list of lines: one for every four lines, each line stripped; lines
  left over at the end make no record.
\<close>

fun complete_records :: "string list \<Rightarrow> fastq_rec list" where
  "complete_records (a # b # c # d # rest) =
     (strip a, strip b, strip c, strip d) # complete_records rest"
| "complete_records ls = []"

definition whitespace_free :: "string \<Rightarrow> bool" where
  "whitespace_free s = (\<forall>c\<in>set s. \<not> isspace c)"

definition whitespace_free_rec :: "fastq_rec \<Rightarrow> bool" where
  "whitespace_free_rec r =
     (case r of (a, b, c, d) \<Rightarrow>
        whitespace_free a \<and> whitespace_free b \<and> whitespace_free c \<and> whitespace_free d)"

text \<open>A file of five lines: one record and the header of a second.\<close>

definition five_lines :: string where
  "five_lines =
     ''@r1'' @ [LF] @ ''ACGT'' @ [LF] @ ''+'' @ [LF] @ ''IIII'' @ [LF] @ ''@r2'' @ [LF]"

text \<open>
  A file of the scratch directory that exists and whose number of lines is a multiple of
  four, the records it holds, and the text of a list of records as the writers produce
  it.
\<close>

definition valid_fastq :: "dir \<Rightarrow> string \<Rightarrow> bool" where
  "valid_fastq tmp f =
     (case map_of tmp f of
        None \<Rightarrow> False
      | Some content \<Rightarrow> length (readlines content) mod 4 = 0)"

definition records_of :: "dir \<Rightarrow> string \<Rightarrow> fastq_rec list" where
  "records_of tmp f =
     (case map_of tmp f of
        None \<Rightarrow> []
      | Some content \<Rightarrow> complete_records (readlines content))"

definition encode :: "fastq_rec list \<Rightarrow> string" where
  "encode recs = concat (map join_rec recs)"

text \<open>Files of one and of two records, and scratch directories made of them.\<close>

definition one_record :: string where
  "one_record = ''@r1'' @ [LF] @ ''ACGT'' @ [LF] @ ''+'' @ [LF] @ ''IIII'' @ [LF]"

definition two_records :: string where
  "two_records =
     ''@r1'' @ [LF] @ ''ACGT'' @ [LF] @ ''+'' @ [LF] @ ''IIII'' @ [LF]
     @ ''@r2'' @ [LF] @ ''TTGA'' @ [LF] @ ''+'' @ [LF] @ ''II#I'' @ [LF]"

definition uneven_dir :: dir where
  "uneven_dir =
     [(''SRR1_00_L001_R2_001.fastq.gz'', one_record),
      (''SRR1_00_L001_R1_001.fastq.gz'', two_records)]"

definition three_dir :: dir where
  "three_dir =
     [(''SRR2_00_L001_R1_001.fastq.gz'', one_record),
      (''SRR1_00_L001_R2_001.fastq.gz'', one_record),
      (''SRR1_00_L001_R1_001.fastq.gz'', one_record)]"

definition truncated_dir :: dir where
  "truncated_dir =
     [(''SRR2_00_L001_R1_001.fastq.gz'', one_record),
      (''SRR1_00_L001_R2_001.fastq.gz'', one_record),
      (''SRR1_00_L001_R1_001.fastq.gz'', five_lines)]"

section \<open>The suffix rules as the specification words them\<close>

text \<open>
  The specification's reading of the Classifier/Renamer, to be compared with \<open>classify\<close>:
  three suffix rules, the accession being the name with the matched suffix stripped, and a
  failure for a name that ends in none of the three suffixes.
\<close>

definition strip_suffix :: "string \<Rightarrow> string \<Rightarrow> string" where
  "strip_suffix suf s = take (length s - length suf) s"

definition spec_classify :: "string \<Rightarrow> error + (read_kind \<times> string)" where
  "spec_classify filename =
     (if endswith filename ''_1.fastq.gz'' then
        Inr (Paired, strip_suffix ''_1.fastq.gz'' filename @ ''_00_L001_R1_001.fastq.gz'')
      else if endswith filename ''_2.fastq.gz'' then
        Inr (Paired, strip_suffix ''_2.fastq.gz'' filename @ ''_00_L001_R2_001.fastq.gz'')
      else if endswith filename ''.fastq.gz'' then
        Inr (Single, strip_suffix ''.fastq.gz'' filename @ ''_00_L001_R1_001.fastq.gz'')
      else Inl AttributeError)"

text \<open>The new names of one kind that these rules give for a listing, in its order.\<close>

definition spec_names :: "read_kind \<Rightarrow> string list \<Rightarrow> string list" where
  "spec_names kind fs =
     List.map_filter
       (\<lambda>f. case spec_classify f of
               Inl e \<Rightarrow> None
             | Inr (k, n) \<Rightarrow> if k = kind then Some n else None)
       fs"

text \<open>
  The new name these rules give a file, and what renaming means for the directory seen as
  a map from names to contents: the content of the source is found under the destination,
  which it replaces, and no longer under the source.
\<close>

definition spec_new_name :: "string \<Rightarrow> string" where
  "spec_new_name f = (case spec_classify f of Inl e \<Rightarrow> f | Inr (k, n) \<Rightarrow> n)"

definition move ::
  "(string \<rightharpoonup> string) \<Rightarrow> string \<Rightarrow> string \<Rightarrow> (string \<rightharpoonup> string)" where
  "move m src dst = (if src = dst then m else (m(dst := m src))(src := None))"

text \<open>
  A scratch directory after a download of a paired and a single-end run, the same
  directory with every file under its new name, and one in which a file was left
  uncompressed.
\<close>

definition downloaded_dir :: dir where
  "downloaded_dir =
     [(''SRR1_1.fastq.gz'', one_record),
      (''SRR2.fastq.gz'', two_records),
      (''SRR1_2.fastq.gz'', one_record)]"

definition renamed_dir :: dir where
  "renamed_dir =
     [(''SRR1_00_L001_R1_001.fastq.gz'', one_record),
      (''SRR2_00_L001_R1_001.fastq.gz'', two_records),
      (''SRR1_00_L001_R2_001.fastq.gz'', one_record)]"

definition plain_dir :: dir where
  "plain_dir = [(''SRR1_1.fastq.gz'', one_record), (''SRR3.fastq'', one_record)]"

section \<open>Example tools and compression pass\<close>

text \<open>
  A tool that writes \<^verbatim>\<open>SRR1.fastq\<close> for the accession \<^verbatim>\<open>SRR1\<close> and nothing for any other,
  and the world it leaves.
\<close>

definition tool_only_srr1 :: "unit tool" where
  "tool_only_srr1 acc threads w =
     (if acc = ''SRR1''
      then (\<lparr>returncode = 0, stdout = [], stderr = []\<rparr>,
            w\<lparr>scratch := AList.update ''SRR1.fastq'' one_record (scratch w)\<rparr>)
      else (\<lparr>returncode = 3, stdout = [], stderr = ''no data''\<rparr>, w))"

definition srr1_world :: "unit world" where
  "srr1_world = \<lparr>scratch = [(''SRR1.fastq'', one_record)], outside = ()\<rparr>"

text \<open>
  A compression pass that appends \<^verbatim>\<open>.gz\<close> to every name, and a tool that writes a forward
  file of two records and a reverse file of one record for any accession.
\<close>

definition gzip_all :: "unit world \<Rightarrow> unit world" where
  "gzip_all w = w\<lparr>scratch := map (\<lambda>(name, content). (name @ ''.gz'', content)) (scratch w)\<rparr>"

definition tool_paired :: "unit tool" where
  "tool_paired acc threads w =
     (\<lparr>returncode = 0, stdout = [], stderr = []\<rparr>,
      w\<lparr>scratch := AList.update (acc @ ''_2.fastq'') one_record
                     (AList.update (acc @ ''_1.fastq'') two_records (scratch w))\<rparr>)"

section \<open>Properties of the Retrieval Runner\<close>

declare fasterq_loop.simps [simp del]

lemma loop_stop:
  "retries < 0 \<Longrightarrow> fasterq_loop tool acc threads retries result w = (result, w, [])"
  by (simp add: fasterq_loop.simps)

lemma loop_step:
  "0 \<le> retries \<Longrightarrow>
   fasterq_loop tool acc threads retries result w =
     (case tool acc threads w of (res, w') \<Rightarrow>
        (case fasterq_loop tool acc threads
                (if \<not> fastq_present acc w' then retries - 1 else - 1) (Some res) w'
         of (r, w'', log) \<Rightarrow> (r, w'', fastq_present acc w' # log)))"
  by (subst fasterq_loop.simps) simp

lemma after_calls_0: "after_calls tool acc threads 0 w = w"
  by (simp add: after_calls_def)

lemma after_calls_Suc:
  "after_calls tool acc threads (Suc k) w =
     after_calls tool acc threads k (snd (tool acc threads w))"
  by (simp add: after_calls_def funpow_Suc_right del: funpow.simps)

lemma after_calls_nothing: "after_calls (tool_nothing rc) acc threads k w = w"
  by (induction k) (simp_all add: after_calls_def tool_nothing_def)

text \<open>
  While the files stay missing the loop uses up its budget: \<open>n\<close> invocations for a
  counter that starts at \<open>n - 1\<close>.
\<close>

lemma loop_all_missing:
  "\<forall>k\<in>{1..n}. \<not> fastq_present acc (after_calls tool acc threads k w) \<Longrightarrow>
   retries = int n - 1 \<Longrightarrow>
   fasterq_loop tool acc threads retries result w =
     (if n = 0 then result
      else Some (fst (tool acc threads (after_calls tool acc threads (n - 1) w))),
      after_calls tool acc threads n w, replicate n False)"
proof (induction n arbitrary: w result retries)
  case 0
  then show ?case by (simp add: loop_stop after_calls_0)
next
  case (Suc n)
  obtain res w' where t: "tool acc threads w = (res, w')"
    by (cases "tool acc threads w")
  have miss: "\<not> fastq_present acc w'"
    using Suc.prems(1) t by (auto simp: after_calls_Suc after_calls_0 dest: bspec [where x = 1])
  have rest: "\<forall>k\<in>{1..n}. \<not> fastq_present acc (after_calls tool acc threads k w')"
  proof
    fix k assume "k \<in> {1..n}"
    then have "Suc k \<in> {1..Suc n}" by simp
    with Suc.prems(1) have "\<not> fastq_present acc (after_calls tool acc threads (Suc k) w)"
      by blast
    then show "\<not> fastq_present acc (after_calls tool acc threads k w')"
      by (simp add: after_calls_Suc t)
  qed
  have ih: "fasterq_loop tool acc threads (retries - 1) (Some res) w' =
     (if n = 0 then Some res
      else Some (fst (tool acc threads (after_calls tool acc threads (n - 1) w'))),
      after_calls tool acc threads n w', replicate n False)"
    using Suc.IH [OF rest, of "retries - 1" "Some res"] Suc.prems(2) by simp
  have nn: "0 \<le> retries" using Suc.prems(2) by simp
  show ?case
  proof (cases n)
    case 0
    then show ?thesis using ih miss nn t by (simp add: loop_step after_calls_Suc after_calls_0)
  next
    case (Suc m)
    then show ?thesis using ih miss nn t by (simp add: loop_step after_calls_Suc)
  qed
qed

text \<open>
  C2: for every accession and every retry budget \<open>r \<ge> 0\<close>, if after each of the first
  \<open>r + 1\<close> invocations neither \<^verbatim>\<open>acc.fastq\<close> nor \<^verbatim>\<open>acc_1.fastq\<close> is in the scratch
  directory, the Retrieval Runner invokes the tool exactly \<open>r + 1\<close> times (the log has
  \<open>r + 1\<close> entries, all negative), stops, and returns the result of invocation \<open>r + 1\<close>.
\<close>

theorem runner_exhausts_retry_budget:
  assumes "0 \<le> r"
    and "\<forall>k\<in>{1..nat r + 1}. \<not> fastq_present acc (after_calls tool acc threads k w)"
  shows "fasterq_loop tool acc threads r None w =
           (Some (fst (tool acc threads (after_calls tool acc threads (nat r) w))),
            after_calls tool acc threads (nat r + 1) w, replicate (nat r + 1) False)
       \<and> run_cmd_fasterq tool acc threads r w =
           Inr (tool acc threads (after_calls tool acc threads (nat r) w))"
proof -
  have eq: "r = int (nat r + 1) - 1" using assms(1) by simp
  have l: "fasterq_loop tool acc threads r None w =
           (Some (fst (tool acc threads (after_calls tool acc threads (nat r) w))),
            after_calls tool acc threads (nat r + 1) w, replicate (nat r + 1) False)"
    using loop_all_missing [OF assms(2) eq, of None] by simp
  have "after_calls tool acc threads (nat r + 1) w =
          snd (tool acc threads (after_calls tool acc threads (nat r) w))"
    by (simp add: after_calls_def)
  with l show ?thesis by (simp add: run_cmd_fasterq_def)
qed

theorem runner_exhausts_retry_budget_witness:
  "(0::int) \<le> 2
   \<and> fasterq_loop (tool_nothing 3) ''SRR1'' 6 2 None empty_world
       = (Some \<lparr>returncode = 3, stdout = [], stderr = ''no data''\<rparr>, empty_world,
          [False, False, False])
   \<and> run_cmd_fasterq (tool_nothing 3) ''SRR1'' 6 2 empty_world
       = Inr (\<lparr>returncode = 3, stdout = [], stderr = ''no data''\<rparr>, empty_world)"
proof -
  have h: "\<forall>k\<in>{1..nat 2 + 1}.
             \<not> fastq_present ''SRR1'' (after_calls (tool_nothing 3) ''SRR1'' 6 k empty_world)"
    by (simp add: after_calls_nothing fastq_present_def isfile_def listdir_def empty_world_def)
  have r: "(0::int) \<le> 2" by simp
  have three: "replicate (nat 2 + 1) False = [False, False, False]"
    by (simp add: numeral_2_eq_2)
  show ?thesis
    using runner_exhausts_retry_budget [OF r h] three
    by (simp add: after_calls_nothing tool_nothing_def)
qed

text \<open>Once bound, \<^verbatim>\<open>result\<close> stays bound.\<close>

lemma loop_result_bound:
  "fst (fasterq_loop tool acc threads retries (Some x) w) \<noteq> None"
proof (induction tool acc threads retries "Some x" w arbitrary: x rule: fasterq_loop.induct)
  case (1 tool acc threads retries w)
  show ?case
  proof (cases "0 \<le> retries")
    case True
    obtain res w' where t: "tool acc threads w = (res, w')"
      by (cases "tool acc threads w")
    from "1" [OF True t [symmetric]] show ?thesis using True t
      by (simp add: loop_step case_prod_beta)
  next
    case False
    then show ?thesis by (simp add: loop_stop)
  qed
qed

text \<open>
  What the loop returns, in terms of the tool: the world is the one that as many
  invocations in a row as the log has entries leave, the result is the one the last of them
  returned, and each entry of the log is the file test after the invocation it stands
  for.
\<close>

lemma loop_characterised:
  "fasterq_loop tool acc threads r res w = (r', w', log) \<Longrightarrow>
     w' = after_calls tool acc threads (length log) w
   \<and> r' = (if log = [] then res
           else Some (fst (tool acc threads
                             (after_calls tool acc threads (length log - 1) w))))
   \<and> (\<forall>i<length log. log ! i = fastq_present acc (after_calls tool acc threads (Suc i) w))
   \<and> length log \<le> nat (r + 1) \<and> (0 \<le> r \<longrightarrow> log \<noteq> [])"
proof (induction tool acc threads r res w arbitrary: r' w' log rule: fasterq_loop.induct)
  case (1 tool acc threads r res w)
  show ?case
  proof (cases "0 \<le> r")
    case False
    then show ?thesis using "1.prems" by (simp add: loop_stop after_calls_0)
  next
    case True
    obtain x v where t: "tool acc threads w = (x, v)" by (cases "tool acc threads w")
    let ?r1 = "if \<not> fastq_present acc v then r - 1 else - 1"
    obtain r1' w1' log1 where rec: "fasterq_loop tool acc threads ?r1 (Some x) v = (r1', w1', log1)"
      by (cases "fasterq_loop tool acc threads ?r1 (Some x) v")
    have res: "r' = r1'" "w' = w1'" "log = fastq_present acc v # log1"
      using "1.prems" True t rec by (simp_all add: loop_step)
    note ih = "1.IH" [OF True t [symmetric] rec]
    have v: "v = snd (tool acc threads w)" using t by simp
    have a: "w' = after_calls tool acc threads (length log) w"
      using ih res by (simp add: after_calls_Suc v)
    have b: "r' = (if log = [] then res
           else Some (fst (tool acc threads
                             (after_calls tool acc threads (length log - 1) w))))"
    proof (cases log1)
      case Nil
      then show ?thesis using ih res t by (simp add: after_calls_0)
    next
      case (Cons y ys)
      then show ?thesis using ih res by (simp add: after_calls_Suc v)
    qed
    have c: "\<forall>i<length log. log ! i = fastq_present acc (after_calls tool acc threads (Suc i) w)"
    proof (intro allI impI)
      fix i assume i: "i < length log"
      show "log ! i = fastq_present acc (after_calls tool acc threads (Suc i) w)"
      proof (cases i)
        case 0
        then show ?thesis using res by (simp add: after_calls_Suc after_calls_0 v)
      next
        case (Suc j)
        then have "j < length log1" using i res by simp
        with ih have "log1 ! j = fastq_present acc (after_calls tool acc threads (Suc j) v)"
          by blast
        then show ?thesis using Suc res by (simp add: after_calls_Suc [of _ _ _ "Suc j"] v)
      qed
    qed
    have "length log1 \<le> nat (?r1 + 1)" using ih by blast
    then have d: "length log \<le> nat (r + 1)" using res True by (auto split: if_splits)
    show ?thesis using a b c d res by simp
  qed
qed

text \<open>
  C10: with a retry budget \<open>r \<ge> 0\<close> the Retrieval Runner invokes the tool \<open>k + 1\<close> times in
  a row for some \<open>k \<le> r\<close>, hence at least once, and returns what the last of these
  invocations returned together with the world it left; with \<open>r < 0\<close> it invokes the tool
  zero times, leaves the world as it was and fails with the unbound-variable error at
  \<^verbatim>\<open>return result\<close>.
\<close>

theorem runner_result_defined_iff_budget_nonneg:
  "(0 \<le> r \<longrightarrow>
      (\<exists>k log.
          fasterq_loop tool acc threads r None w =
            (Some (fst (tool acc threads (after_calls tool acc threads k w))),
             after_calls tool acc threads (Suc k) w, log)
        \<and> length log = Suc k \<and> k \<le> nat r
        \<and> (\<forall>i<length log. log ! i = fastq_present acc (after_calls tool acc threads (Suc i) w))
        \<and> run_cmd_fasterq tool acc threads r w =
            Inr (tool acc threads (after_calls tool acc threads k w))))
 \<and> (r < 0 \<longrightarrow>
      fasterq_loop tool acc threads r None w = (None, w, [])
      \<and> run_cmd_fasterq tool acc threads r w = Inl UnboundLocalError)"
proof (rule conjI; rule impI)
  assume nn: "0 \<le> r"
  obtain r' w' log where l: "fasterq_loop tool acc threads r None w = (r', w', log)"
    by (cases "fasterq_loop tool acc threads r None w")
  note ch = loop_characterised [OF l]
  have ne: "log \<noteq> []" using ch nn by blast
  then obtain k where k: "length log = Suc k" by (cases log) auto
  have w': "w' = after_calls tool acc threads (Suc k) w" using ch k by simp
  have r': "r' = Some (fst (tool acc threads (after_calls tool acc threads k w)))"
    using ch ne k by simp
  have kr: "k \<le> nat r" using ch k nn by auto
  have sn: "snd (tool acc threads (after_calls tool acc threads k w))
              = after_calls tool acc threads (Suc k) w"
    by (simp add: after_calls_def)
  have run0: "run_cmd_fasterq tool acc threads r w =
            Inr (fst (tool acc threads (after_calls tool acc threads k w)),
                 after_calls tool acc threads (Suc k) w)"
    using l r' w' by (simp add: run_cmd_fasterq_def)
  have tp: "(fst (tool acc threads (after_calls tool acc threads k w)),
             after_calls tool acc threads (Suc k) w)
              = tool acc threads (after_calls tool acc threads k w)"
    using sn by (simp add: prod_eq_iff)
  have run: "run_cmd_fasterq tool acc threads r w =
            Inr (tool acc threads (after_calls tool acc threads k w))"
    unfolding run0 tp ..
  have entries: "\<forall>i<length log. log ! i = fastq_present acc (after_calls tool acc threads (Suc i) w)"
    using ch by blast
  show "\<exists>k log.
          fasterq_loop tool acc threads r None w =
            (Some (fst (tool acc threads (after_calls tool acc threads k w))),
             after_calls tool acc threads (Suc k) w, log)
        \<and> length log = Suc k \<and> k \<le> nat r
        \<and> (\<forall>i<length log. log ! i = fastq_present acc (after_calls tool acc threads (Suc i) w))
        \<and> run_cmd_fasterq tool acc threads r w =
            Inr (tool acc threads (after_calls tool acc threads k w))"
    using l r' w' k kr entries run by blast
next
  assume "r < 0"
  then show "fasterq_loop tool acc threads r None w = (None, w, []) \<and>
    run_cmd_fasterq tool acc threads r w = Inl UnboundLocalError"
    by (simp add: loop_stop run_cmd_fasterq_def)
qed

text \<open>
  A run in which the tool writes the file at its first invocation, and one with a negative
  budget.
\<close>

lemma loop_srr1: "fasterq_loop tool_only_srr1 ''SRR1'' 6 2 None empty_world
       = (Some \<lparr>returncode = 0, stdout = [], stderr = []\<rparr>, srr1_world, [True])"
  by (simp add: loop_step loop_stop tool_only_srr1_def fastq_present_def
      isfile_def listdir_def empty_world_def srr1_world_def)

theorem runner_result_defined_iff_budget_nonneg_witness:
  "(\<exists>k log.
      fasterq_loop tool_only_srr1 ''SRR1'' 6 2 None empty_world =
        (Some (fst (tool_only_srr1 ''SRR1'' 6 (after_calls tool_only_srr1 ''SRR1'' 6 k empty_world))),
         after_calls tool_only_srr1 ''SRR1'' 6 (Suc k) empty_world, log)
      \<and> length log = Suc k \<and> k \<le> nat 2)
   \<and> fasterq_loop tool_only_srr1 ''SRR1'' 6 2 None empty_world
       = (Some \<lparr>returncode = 0, stdout = [], stderr = []\<rparr>, srr1_world, [True])
   \<and> fasterq_loop tool_only_srr1 ''SRR1'' 6 (- 1) None empty_world = (None, empty_world, [])
   \<and> run_cmd_fasterq tool_only_srr1 ''SRR1'' 6 (- 1) empty_world = Inl UnboundLocalError"
proof -
  have "(0::int) \<le> 2" by simp
  with runner_result_defined_iff_budget_nonneg [of 2 tool_only_srr1 "''SRR1''" 6 empty_world]
  have a: "\<exists>k log.
      fasterq_loop tool_only_srr1 ''SRR1'' 6 2 None empty_world =
        (Some (fst (tool_only_srr1 ''SRR1'' 6 (after_calls tool_only_srr1 ''SRR1'' 6 k empty_world))),
         after_calls tool_only_srr1 ''SRR1'' 6 (Suc k) empty_world, log)
      \<and> length log = Suc k \<and> k \<le> nat 2"
    by blast
  have "(- 1 :: int) < 0" by simp
  with runner_result_defined_iff_budget_nonneg [of "- 1" tool_only_srr1 "''SRR1''" 6 empty_world]
  have b: "fasterq_loop tool_only_srr1 ''SRR1'' 6 (- 1) None empty_world = (None, empty_world, [])
      \<and> run_cmd_fasterq tool_only_srr1 ''SRR1'' 6 (- 1) empty_world = Inl UnboundLocalError"
    by blast
  from a b loop_srr1 show ?thesis by blast
qed

text \<open>
  Two runs with the same budget whose file tests agree after every invocation that both
  perform have the same log, whatever the tools return.
\<close>

lemma loop_log_same:
  assumes "\<forall>k. k < length (snd (snd (fasterq_loop t1 acc th1 r res1 w1)))
             \<and> k < length (snd (snd (fasterq_loop t2 acc th2 r res2 w2)))
         \<longrightarrow> fastq_present acc (after_calls t1 acc th1 (Suc k) w1)
             = fastq_present acc (after_calls t2 acc th2 (Suc k) w2)"
  shows "snd (snd (fasterq_loop t1 acc th1 r res1 w1))
       = snd (snd (fasterq_loop t2 acc th2 r res2 w2))"
  using assms
proof (induction t1 acc th1 r res1 w1 arbitrary: res2 w2 rule: fasterq_loop.induct)
  case (1 t1 acc th1 r res1 w1)
  show ?case
  proof (cases "0 \<le> r")
    case False
    then show ?thesis by (simp add: loop_stop)
  next
    case True
    obtain x1 v1 where a: "t1 acc th1 w1 = (x1, v1)" by (cases "t1 acc th1 w1")
    obtain x2 v2 where b: "t2 acc th2 w2 = (x2, v2)" by (cases "t2 acc th2 w2")
    let ?r1 = "if \<not> fastq_present acc v1 then r - 1 else - 1"
    let ?r2 = "if \<not> fastq_present acc v2 then r - 1 else - 1"
    have l1: "snd (snd (fasterq_loop t1 acc th1 r res1 w1))
        = fastq_present acc v1 # snd (snd (fasterq_loop t1 acc th1 ?r1 (Some x1) v1))"
      using True a by (simp add: loop_step case_prod_beta)
    have l2: "snd (snd (fasterq_loop t2 acc th2 r res2 w2))
        = fastq_present acc v2 # snd (snd (fasterq_loop t2 acc th2 ?r2 (Some x2) v2))"
      using True b by (simp add: loop_step case_prod_beta)
    have first: "fastq_present acc v1 = fastq_present acc v2"
      using "1.prems" [rule_format, of 0] l1 l2 a b
      by (simp add: after_calls_Suc after_calls_0)
    then have same: "?r1 = ?r2" by simp
    have rest: "\<forall>k. k < length (snd (snd (fasterq_loop t1 acc th1 ?r1 (Some x1) v1)))
             \<and> k < length (snd (snd (fasterq_loop t2 acc th2 ?r1 (Some x2) v2)))
         \<longrightarrow> fastq_present acc (after_calls t1 acc th1 (Suc k) v1)
             = fastq_present acc (after_calls t2 acc th2 (Suc k) v2)"
    proof (intro allI impI)
      fix k
      assume k: "k < length (snd (snd (fasterq_loop t1 acc th1 ?r1 (Some x1) v1)))
             \<and> k < length (snd (snd (fasterq_loop t2 acc th2 ?r1 (Some x2) v2)))"
      have "fastq_present acc (after_calls t1 acc th1 (Suc (Suc k)) w1)
             = fastq_present acc (after_calls t2 acc th2 (Suc (Suc k)) w2)"
        using "1.prems" [rule_format, of "Suc k"] k l1 l2 same by simp
      then show "fastq_present acc (after_calls t1 acc th1 (Suc k) v1)
             = fastq_present acc (after_calls t2 acc th2 (Suc k) v2)"
        using a b by (simp add: after_calls_Suc)
    qed
    have "snd (snd (fasterq_loop t1 acc th1 ?r1 (Some x1) v1))
        = snd (snd (fasterq_loop t2 acc th2 ?r1 (Some x2) v2))"
      using "1.IH" [OF True a [symmetric] rest] .
    then show ?thesis using l1 l2 first by simp
  qed
qed

text \<open>
  C8: the retry-or-stop decisions depend only on the file test. Take two runs for the same
  accession and budget, with any two tools, thread counts and worlds, hence any exit
  codes. If after each invocation that both runs perform the test for \<^verbatim>\<open>acc.fastq\<close> or
  \<^verbatim>\<open>acc_1.fastq\<close> has the same value in both, then both runs have the same log: the same
  number of invocations and the same decision after each.
\<close>

theorem runner_decisions_ignore_exit_code:
  assumes "\<forall>k. k < length (snd (snd (fasterq_loop t1 acc th1 r None w1)))
             \<and> k < length (snd (snd (fasterq_loop t2 acc th2 r None w2)))
         \<longrightarrow> fastq_present acc (after_calls t1 acc th1 (Suc k) w1)
             = fastq_present acc (after_calls t2 acc th2 (Suc k) w2)"
  shows "snd (snd (fasterq_loop t1 acc th1 r None w1))
       = snd (snd (fasterq_loop t2 acc th2 r None w2))"
  using assms by (rule loop_log_same)

theorem runner_decisions_ignore_exit_code_witness:
  "returncode (fst (tool_nothing 3 ''SRR1'' 6 empty_world))
     \<noteq> returncode (fst (tool_nothing 0 ''SRR1'' 6 empty_world))
   \<and> snd (snd (fasterq_loop (tool_nothing 3) ''SRR1'' 6 2 None empty_world))
     = snd (snd (fasterq_loop (tool_nothing 0) ''SRR1'' 6 2 None empty_world))"
proof -
  have "snd (snd (fasterq_loop (tool_nothing 3) ''SRR1'' 6 2 None empty_world))
     = snd (snd (fasterq_loop (tool_nothing 0) ''SRR1'' 6 2 None empty_world))"
    by (rule runner_decisions_ignore_exit_code) (simp add: after_calls_nothing)
  then show ?thesis by (simp add: tool_nothing_def)
qed

section \<open>Properties of the Record Reader\<close>

text \<open>
  The reader yields the complete records and then stops when the number of lines is a
  multiple of four, and raises otherwise: \<^verbatim>\<open>strip\<close> is called on the \<^verbatim>\<open>None\<close> that fills
  the last group.
\<close>

lemma read_groups_zip_longest4:
  "read_groups (zip_longest4 ls) =
     gen_of (complete_records ls) (if length ls mod 4 = 0 then Stop else Raise AttributeError)"
  by (induction ls rule: zip_longest4.induct) (simp_all add: strip_method_def)

lemma length_complete_records: "length (complete_records ls) = length ls div 4"
  by (induction ls rule: zip_longest4.induct) simp_all

lemma yielded_gen_of: "yielded (gen_of xs fin) = xs @ yielded fin"
  by (induction xs) simp_all

lemma outcome_gen_of: "outcome (gen_of xs fin) = outcome fin"
  by (induction xs) simp_all

lemma readlines_five:
  "readlines five_lines =
     [''@r1'' @ [LF], ''ACGT'' @ [LF], ''+'' @ [LF], ''IIII'' @ [LF], ''@r2'' @ [LF]]"
  by (simp add: five_lines_def readlines_def)

text \<open>
  C3, as stated, fails: on a file of five lines the reader yields the one complete
  record and then raises \<open>AttributeError\<close>; it yields no tuple filled with placeholders.
\<close>

theorem reader_partial_record_counterexample:
  "length (readlines five_lines) mod 4 \<noteq> 0
   \<and> read_fastq_seqs [(''SRR1_00_L001_R1_001.fastq.gz'', five_lines)]
         ''SRR1_00_L001_R1_001.fastq.gz''
       = Yield (''@r1'', ''ACGT'', ''+'', ''IIII'') (Raise AttributeError)"
  by (simp add: read_fastq_seqs_def read_content_def readlines_five strip_method_def
      strip_def isspace_def)

text \<open>
  C3, amended: for every file whose number of lines \<open>n\<close> is not a multiple of 4, the
  Record Reader yields the \<open>n div 4\<close> complete records, each line stripped, and then raises
  \<open>AttributeError\<close>.
\<close>

theorem reader_raises_on_partial_record:
  assumes "map_of d filepath = Some content"
    and "length (readlines content) mod 4 \<noteq> 0"
  shows "outcome (read_fastq_seqs d filepath) = Some AttributeError
       \<and> yielded (read_fastq_seqs d filepath) = complete_records (readlines content)
       \<and> length (yielded (read_fastq_seqs d filepath)) = length (readlines content) div 4"
  using assms
  by (simp add: read_fastq_seqs_def read_content_def read_groups_zip_longest4
      yielded_gen_of outcome_gen_of length_complete_records)

theorem reader_raises_on_partial_record_witness:
  "outcome (read_fastq_seqs [(''f.fastq.gz'', five_lines)] ''f.fastq.gz'') = Some AttributeError
   \<and> yielded (read_fastq_seqs [(''f.fastq.gz'', five_lines)] ''f.fastq.gz'')
       = [(''@r1'', ''ACGT'', ''+'', ''IIII'')]"
  using reader_raises_on_partial_record
          [of "[(''f.fastq.gz'', five_lines)]" "''f.fastq.gz''" five_lines]
  by (simp add: readlines_five strip_def isspace_def)

section \<open>Round trip through the single-end writer\<close>

lemma split_lines_line:
  "CR \<notin> set s \<Longrightarrow> LF \<notin> set s \<Longrightarrow>
   split_lines False cur (s @ LF # rest) = (cur @ s @ [LF]) # split_lines False [] rest"
  by (induction s arbitrary: cur) auto

lemma readlines_join_rec:
  assumes "CR \<notin> set a \<and> LF \<notin> set a" "CR \<notin> set b \<and> LF \<notin> set b"
    "CR \<notin> set c \<and> LF \<notin> set c" "CR \<notin> set d \<and> LF \<notin> set d"
  shows "readlines (join_rec (a, b, c, d) @ rest) =
           (a @ [LF]) # (b @ [LF]) # (c @ [LF]) # (d @ [LF]) # readlines rest"
  using assms
  by (simp add: readlines_def join_rec_def split_lines_line [where cur = "[]", simplified])

lemma isspace_LF: "isspace LF" and isspace_CR: "isspace CR"
  by (simp_all add: isspace_def)

lemma whitespace_free_no_breaks: "whitespace_free s \<Longrightarrow> CR \<notin> set s \<and> LF \<notin> set s"
  using isspace_LF isspace_CR by (auto simp: whitespace_free_def)

lemma dropWhile_none: "\<forall>x\<in>set xs. \<not> P x \<Longrightarrow> dropWhile P xs = xs"
  by (cases xs) simp_all

lemma strip_line: "whitespace_free s \<Longrightarrow> strip (s @ [LF]) = s"
proof (cases s)
  case Nil
  then show ?thesis by (simp add: strip_def isspace_LF)
next
  case (Cons c cs)
  assume wf: "whitespace_free s"
  then have "\<not> isspace c" using Cons by (simp add: whitespace_free_def)
  then have "dropWhile isspace (s @ [LF]) = s @ [LF]" using Cons by simp
  moreover have "dropWhile isspace (rev s) = rev s"
    using wf by (intro dropWhile_none) (simp add: whitespace_free_def)
  ultimately show ?thesis by (simp add: strip_def isspace_LF)
qed

lemma write_records_gen_of:
  "write_records (gen_of recs Stop) out = (out @ concat (map join_rec recs), None)"
  by (induction recs arbitrary: out) simp_all

lemma read_content_encoded:
  "\<forall>r\<in>set recs. whitespace_free_rec r \<Longrightarrow>
   read_content (concat (map join_rec recs)) = gen_of recs Stop"
proof (induction recs)
  case Nil
  then show ?case by (simp add: read_content_def readlines_def)
next
  case (Cons r recs)
  obtain a b c d where r: "r = (a, b, c, d)" by (cases r) auto
  have wf: "whitespace_free a" "whitespace_free b" "whitespace_free c" "whitespace_free d"
    using Cons.prems r by (simp_all add: whitespace_free_rec_def)
  have ih: "read_groups (zip_longest4 (readlines (concat (map join_rec recs)))) = gen_of recs Stop"
    using Cons by (simp add: read_content_def)
  show ?case
    using wf ih
    by (simp add: r read_content_def readlines_join_rec whitespace_free_no_breaks
        strip_method_def strip_line)
qed

text \<open>
  C5: for every finite sequence of 4-tuples of whitespace-free strings, the write loop of
  the single-end Casava Writer produces the file that joins the four fields of each
  record with line feeds, and the Record Reader on that file yields the same records in
  the same order and then stops. Hence the single-end Casava Writer, given that file in
  the scratch directory, writes the same file again.
\<close>

theorem single_writer_reader_round_trip:
  assumes "\<forall>r\<in>set recs. whitespace_free_rec r"
  shows "write_records (gen_of recs Stop) [] = (concat (map join_rec recs), None)
       \<and> read_fastq_seqs [(filename, fst (write_records (gen_of recs Stop) []))] filename
          = gen_of recs Stop
       \<and> write2casava_dir_single [(filename, concat (map join_rec recs))] [] [filename]
          = ([(filename, concat (map join_rec recs))], None)"
  using assms
  by (simp add: write_records_gen_of read_fastq_seqs_def read_content_encoded
      write2casava_dir_single_def listdir_def)

theorem single_writer_reader_round_trip_witness:
  "read_fastq_seqs
     [(''SRR2_00_L001_R1_001.fastq.gz'',
       fst (write_records
              (gen_of [(''@r1'', ''ACGT'', ''+'', ''IIII''), (''@r2'', ''TTGA'', ''+'', ''II#I'')] Stop)
              []))]
     ''SRR2_00_L001_R1_001.fastq.gz''
   = Yield (''@r1'', ''ACGT'', ''+'', ''IIII'') (Yield (''@r2'', ''TTGA'', ''+'', ''II#I'') Stop)"
  using single_writer_reader_round_trip
          [of "[(''@r1'', ''ACGT'', ''+'', ''IIII''), (''@r2'', ''TTGA'', ''+'', ''II#I'')]"
              "''SRR2_00_L001_R1_001.fastq.gz''"]
  by (simp add: whitespace_free_rec_def whitespace_free_def isspace_def)

section \<open>Properties of the paired Casava Writer\<close>

lemma read_fastq_seqs_valid:
  "valid_fastq tmp f \<Longrightarrow> read_fastq_seqs tmp f = gen_of (records_of tmp f) Stop"
  by (auto simp: valid_fastq_def records_of_def read_fastq_seqs_def read_content_def
      read_groups_zip_longest4 split: option.splits)

lemma zip_gen_gen_of: "zip_gen (gen_of xs Stop) (gen_of ys Stop) = gen_of (zip xs ys) Stop"
proof (induction xs arbitrary: ys)
  case Nil
  then show ?case by simp
next
  case (Cons x xs)
  then show ?case by (cases ys) simp_all
qed

lemma write_pairs_gen_of:
  "write_pairs (gen_of ps Stop) fwd rv =
     ((fwd @ encode (map fst ps), rv @ encode (map snd ps)), None)"
  by (induction ps arbitrary: fwd rv) (auto simp: encode_def)

lemma write_pair_valid:
  assumes "valid_fastq tmp f1" "valid_fastq tmp f2"
  shows "write_pair tmp f1 f2 casava =
     (AList.update f2
        (encode (take (min (length (records_of tmp f1)) (length (records_of tmp f2)))
                   (records_of tmp f2)))
        (AList.update f1
           (encode (take (min (length (records_of tmp f1)) (length (records_of tmp f2)))
                      (records_of tmp f1)))
           casava),
      None)"
  using assms
  by (simp add: write_pair_def read_fastq_seqs_valid zip_gen_gen_of write_pairs_gen_of
      map_fst_zip_take map_snd_zip_take min.commute)

lemma write_pair_outcome_indep:
  "snd (write_pair tmp f1 f2 c) = snd (write_pair tmp f1 f2 c')"
  by (simp add: write_pair_def case_prod_beta)

lemma double_loop_append:
  "double_loop tmp ls (is @ js) c =
     (case double_loop tmp ls is c of
        (c', None) \<Rightarrow> double_loop tmp ls js c'
      | (c', Some e) \<Rightarrow> (c', Some e))"
  by (induction "is" arbitrary: c) (auto split: prod.splits option.splits)

lemma double_loop_pairs:
  assumes "2 * m \<le> length ls"
    and "\<forall>k<m. snd (write_pair tmp (ls ! (2 * k)) (ls ! (2 * k + 1)) []) = None"
  shows "double_loop tmp ls (map (\<lambda>k. 2 * k) [0..<m]) c =
           (foldl (\<lambda>c k. fst (write_pair tmp (ls ! (2 * k)) (ls ! (2 * k + 1)) c)) c [0..<m], None)"
  using assms
proof (induction m)
  case 0
  then show ?case by simp
next
  case (Suc m)
  have ih: "double_loop tmp ls (map (\<lambda>k. 2 * k) [0..<m]) c =
           (foldl (\<lambda>c k. fst (write_pair tmp (ls ! (2 * k)) (ls ! (2 * k + 1)) c)) c [0..<m], None)"
    using Suc by simp
  let ?c = "foldl (\<lambda>c k. fst (write_pair tmp (ls ! (2 * k)) (ls ! (2 * k + 1)) c)) c [0..<m]"
  have ok: "snd (write_pair tmp (ls ! (2 * m)) (ls ! (2 * m + 1)) ?c) = None"
    using Suc.prems(2) write_pair_outcome_indep [of tmp _ _ ?c "[]"] by simp
  have bound: "2 * m < length ls" "2 * m + 1 < length ls" using Suc.prems(1) by simp_all
  obtain c' where wp: "write_pair tmp (ls ! (2 * m)) (ls ! (2 * m + 1)) ?c = (c', None)"
    using ok by (cases "write_pair tmp (ls ! (2 * m)) (ls ! (2 * m + 1)) ?c") auto
  show ?case
    using ih wp bound by (simp add: double_loop_append)
qed

lemma range_step2_even: "even n \<Longrightarrow> range_step2 n = map (\<lambda>k. 2 * k) [0..<n div 2]"
  by (auto simp: range_step2_def elim!: evenE)

lemma range_step2_odd:
  "odd n \<Longrightarrow> range_step2 n = map (\<lambda>k. 2 * k) [0..<n div 2] @ [2 * (n div 2)]"
  by (auto simp: range_step2_def elim!: oddE)

lemma double_loop_all:
  assumes "\<forall>k<length ls div 2. snd (write_pair tmp (ls ! (2 * k)) (ls ! (2 * k + 1)) []) = None"
  shows "double_loop tmp ls (range_step2 (length ls)) c =
           (foldl (\<lambda>c k. fst (write_pair tmp (ls ! (2 * k)) (ls ! (2 * k + 1)) c)) c
              [0..<length ls div 2],
            if odd (length ls) then Some IndexError else None)"
proof -
  have le: "2 * (length ls div 2) \<le> length ls" by simp
  note pairs = double_loop_pairs [OF le assms, of c]
  show ?thesis
  proof (cases "odd (length ls)")
    case True
    then have "2 * (length ls div 2) + 1 = length ls" by (auto elim: oddE)
    then have "2 * (length ls div 2) < length ls" "\<not> 2 * (length ls div 2) + 1 < length ls"
      by linarith+
    then show ?thesis using True pairs
      by (simp add: range_step2_odd double_loop_append)
  next
    case False
    then show ?thesis using pairs by (simp add: range_step2_even)
  qed
qed

text \<open>
  C7, as stated, fails: the list below has three names, and the writer fails with
  \<open>AttributeError\<close>, not with an index error, because the forward file of the first pair
  has five lines and the reader raises on it before the loop reaches the third name.
\<close>

theorem double_writer_odd_list_counterexample:
  "odd (length (listdir truncated_dir))
   \<and> write2casava_dir_double truncated_dir [] (listdir truncated_dir)
     = ([(''SRR1_00_L001_R1_001.fastq.gz'', one_record),
         (''SRR1_00_L001_R2_001.fastq.gz'', one_record)], Some AttributeError)"
  by code_simp

text \<open>
  C7, amended: the paired Casava Writer sorts the list and takes element \<open>2k\<close> of the sorted
  list as forward and element \<open>2k + 1\<close> as reverse file, for \<open>k\<close> below half the length, in
  this order. When writing each of these pairs raises nothing, the container is the
  result of exactly these writes; with a list of even length the writer then returns,
  with a list of odd length it fails with \<open>IndexError\<close> and has written nothing for the last
  name.
\<close>

theorem double_writer_pairs_sorted_list:
  assumes "\<forall>k<length ls div 2.
             snd (write_pair tmp (sort ls ! (2 * k)) (sort ls ! (2 * k + 1)) []) = None"
  shows "write2casava_dir_double tmp casava ls =
           (foldl (\<lambda>c k. fst (write_pair tmp (sort ls ! (2 * k)) (sort ls ! (2 * k + 1)) c))
              casava [0..<length ls div 2],
            if odd (length ls) then Some IndexError else None)"
  using double_loop_all [of "sort ls" tmp casava] assms
  by (simp add: write2casava_dir_double_def Let_def)

theorem double_writer_pairs_sorted_list_witness:
  "odd (length (listdir three_dir))
   \<and> write2casava_dir_double three_dir [] (listdir three_dir)
     = ([(''SRR1_00_L001_R1_001.fastq.gz'', one_record),
         (''SRR1_00_L001_R2_001.fastq.gz'', one_record)], Some IndexError)"
proof -
  have s: "sort (listdir three_dir) = [''SRR1_00_L001_R1_001.fastq.gz'',
      ''SRR1_00_L001_R2_001.fastq.gz'', ''SRR2_00_L001_R1_001.fastq.gz'']"
    by code_simp
  have p: "write_pair three_dir ''SRR1_00_L001_R1_001.fastq.gz'' ''SRR1_00_L001_R2_001.fastq.gz'' []
      = ([(''SRR1_00_L001_R1_001.fastq.gz'', one_record),
         (''SRR1_00_L001_R2_001.fastq.gz'', one_record)], None)"
    by code_simp
  have l: "length (listdir three_dir) div 2 = Suc 0"
    by (simp add: listdir_def three_dir_def)
  have h: "\<forall>k<length (listdir three_dir) div 2.
     snd (write_pair three_dir (sort (listdir three_dir) ! (2 * k))
            (sort (listdir three_dir) ! (2 * k + 1)) []) = None"
    by (simp add: l s p)
  have o: "odd (length (listdir three_dir))"
    by (simp add: listdir_def three_dir_def)
  show ?thesis
    using double_writer_pairs_sorted_list [OF h, of "[]"] o by (simp add: l s p)
qed

text \<open>
  C9: a forward and a reverse file of \<open>m\<close> and \<open>n\<close> records (\<open>4m\<close> and \<open>4n\<close> lines) with
  \<open>m \<noteq> n\<close>: the paired Casava Writer raises nothing and writes to each of the two
  destination files the first \<open>min m n\<close> records of its source, and no more.
\<close>

theorem double_writer_stops_at_shorter_file:
  assumes "sort ls = [f1, f2]"
    and "map_of tmp f1 = Some c1" and "map_of tmp f2 = Some c2"
    and "length (readlines c1) = 4 * m" and "length (readlines c2) = 4 * n"
    and "m \<noteq> n"
  shows "write2casava_dir_double tmp casava ls =
           (AList.update f2 (encode (take (min m n) (complete_records (readlines c2))))
              (AList.update f1 (encode (take (min m n) (complete_records (readlines c1)))) casava),
            None)
       \<and> length (complete_records (readlines c1)) = m
       \<and> length (complete_records (readlines c2)) = n
       \<and> length (take (min m n) (complete_records (readlines c1))) = min m n
       \<and> length (take (min m n) (complete_records (readlines c2))) = min m n"
proof -
  have v: "valid_fastq tmp f1" "valid_fastq tmp f2"
    using assms by (simp_all add: valid_fastq_def)
  have r: "records_of tmp f1 = complete_records (readlines c1)"
    "records_of tmp f2 = complete_records (readlines c2)"
    using assms by (simp_all add: records_of_def)
  have l: "length (complete_records (readlines c1)) = m" "length (complete_records (readlines c2)) = n"
    using assms by (simp_all add: length_complete_records)
  have len: "length (sort ls) = 2" using assms(1) by simp
  have "double_loop tmp [f1, f2] (range_step2 (length [f1, f2])) casava =
     (case write_pair tmp f1 f2 casava of (c', None) \<Rightarrow> (c', None) | (c', Some e) \<Rightarrow> (c', Some e))"
    by (simp add: range_step2_def)
  then show ?thesis
    using write_pair_valid [OF v, of casava] r l assms(1)
    by (simp add: write2casava_dir_double_def Let_def)
qed

theorem double_writer_stops_at_shorter_file_witness:
  "write2casava_dir_double uneven_dir [] (listdir uneven_dir)
     = ([(''SRR1_00_L001_R1_001.fastq.gz'', one_record),
         (''SRR1_00_L001_R2_001.fastq.gz'', one_record)], None)"
proof -
  have s: "sort (listdir uneven_dir) = [''SRR1_00_L001_R1_001.fastq.gz'',
      ''SRR1_00_L001_R2_001.fastq.gz'']"
    by code_simp
  have m1: "map_of uneven_dir ''SRR1_00_L001_R1_001.fastq.gz'' = Some two_records"
    and m2: "map_of uneven_dir ''SRR1_00_L001_R2_001.fastq.gz'' = Some one_record"
    by (simp_all add: uneven_dir_def)
  have l1: "length (readlines two_records) = 4 * 2" and l2: "length (readlines one_record) = 4 * 1"
    by (simp_all add: two_records_def one_record_def readlines_def)
  have e1: "encode (take (Suc 0) (complete_records (readlines two_records))) = one_record"
    and e2: "encode (complete_records (readlines one_record)) = one_record"
    by code_simp+
  have ne: "(2::nat) \<noteq> 1" by simp
  show ?thesis
    using double_writer_stops_at_shorter_file [OF s m1 m2 l1 l2 ne, of "[]"] by (simp add: e1 e2)
qed

section \<open>Properties of the File Classifier/Renamer\<close>

lemma endswith_iff: "endswith s suf \<longleftrightarrow> (\<exists>p. s = p @ suf)"
proof
  assume "endswith s suf"
  then have "s = take (length s - length suf) s @ suf"
    by (metis append_take_drop_id endswith_def)
  then show "\<exists>p. s = p @ suf" ..
next
  assume "\<exists>p. s = p @ suf"
  then show "endswith s suf" by (auto simp: endswith_def)
qed

lemma strip_suffix_append: "strip_suffix suf (p @ suf) = p"
  by (simp add: strip_suffix_def)

lemma match_here_sound:
  "match_here lit s = Some g \<Longrightarrow> (s = g @ lit \<or> s = g @ lit @ [LF]) \<and> LF \<notin> set g"
proof (induction s arbitrary: g)
  case Nil
  then show ?case by (auto simp: lit_at_end_def split: if_splits)
next
  case (Cons c cs)
  show ?case
  proof (cases "c \<noteq> LF \<and> match_here lit cs \<noteq> None")
    case True
    then obtain g' where g': "match_here lit cs = Some g'" by auto
    with True Cons.prems have "g = c # g'" by simp
    with Cons.IH [OF g'] True show ?thesis by auto
  next
    case False
    then have "(if c \<noteq> LF then match_here lit cs else None) = None" by auto
    with Cons.prems have "lit_at_end lit (c # cs)" "g = []"
      by (auto split: if_splits)
    then show ?thesis by (auto simp: lit_at_end_def)
  qed
qed

lemma match_here_short: "length s < length lit \<Longrightarrow> match_here lit s = None"
proof (cases "match_here lit s")
  case None
  then show ?thesis by simp
next
  case (Some g)
  assume "length s < length lit"
  with match_here_sound [OF Some] show ?thesis by auto
qed

lemma match_here_exact: "LF \<notin> set (p @ lit) \<Longrightarrow> match_here lit (p @ lit) = Some p"
proof (induction p)
  case Nil
  show ?case
  proof (cases lit)
    case Nil
    then show ?thesis by (simp add: lit_at_end_def)
  next
    case (Cons c cs)
    have "match_here lit cs = None" using Cons by (intro match_here_short) simp
    then show ?thesis using Cons by (simp add: lit_at_end_def)
  qed
next
  case (Cons c p)
  then show ?case by auto
qed

lemma re_search_of_match: "match_here lit s = Some g \<Longrightarrow> re_search lit s = Some g"
  by (cases s) simp_all

lemma re_search_sound:
  "re_search lit s = Some g \<Longrightarrow> \<exists>pre. s = pre @ g @ lit \<or> s = pre @ g @ lit @ [LF]"
proof (induction s)
  case Nil
  then show ?case using match_here_sound [of lit "[]" g] by auto
next
  case (Cons c cs)
  show ?case
  proof (cases "match_here lit (c # cs)")
    case None
    with Cons.prems have "re_search lit cs = Some g" by simp
    from Cons.IH [OF this] obtain pre where "cs = pre @ g @ lit \<or> cs = pre @ g @ lit @ [LF]" ..
    then have "c # cs = (c # pre) @ g @ lit \<or> c # cs = (c # pre) @ g @ lit @ [LF]" by auto
    then show ?thesis ..
  next
    case (Some g')
    with Cons.prems have "g' = g" by simp
    with match_here_sound [OF Some] have "c # cs = [] @ g @ lit \<or> c # cs = [] @ g @ lit @ [LF]"
      by auto
    then show ?thesis ..
  qed
qed

lemma group1_suffix:
  assumes "LF \<notin> set s" "endswith s lit"
  shows "group1 lit s = Inr (strip_suffix lit s)"
proof -
  from assms(2) obtain p where p: "s = p @ lit" by (auto simp: endswith_iff)
  with assms(1) have "match_here lit (p @ lit) = Some p" by (intro match_here_exact) simp
  then have "re_search lit s = Some p" using p by (simp add: re_search_of_match)
  then show ?thesis using p by (simp add: group1_def strip_suffix_append)
qed

lemma group1_fail:
  assumes "LF \<notin> set s" "\<not> endswith s lit"
  shows "group1 lit s = Inl AttributeError"
proof (cases "re_search lit s")
  case None
  then show ?thesis by (simp add: group1_def)
next
  case (Some g)
  from re_search_sound [OF Some] obtain pre where "s = pre @ g @ lit \<or> s = pre @ g @ lit @ [LF]" ..
  then show ?thesis
  proof
    assume "s = pre @ g @ lit"
    then have "s = (pre @ g) @ lit" by simp
    then have "endswith s lit" unfolding endswith_iff ..
    with assms(2) show ?thesis by simp
  next
    assume "s = pre @ g @ lit @ [LF]"
    then have "LF \<in> set s" by simp
    with assms(1) show ?thesis by simp
  qed
qed

lemma classify_spec: "LF \<notin> set filename \<Longrightarrow> classify filename = spec_classify filename"
  by (simp add: classify_def spec_classify_def group1_suffix group1_fail)

text \<open>
  C4, as stated, fails: the accession is not always the name with its suffix stripped.
  For the name made of \<^verbatim>\<open>a\<close>, a line feed and \<^verbatim>\<open>b_1.fastq.gz\<close>, group 1 of the pattern is
  \<^verbatim>\<open>b\<close>, since \<^verbatim>\<open>.\<close> does not match a line feed and the search moves on to a later start.
\<close>

theorem classifier_newline_counterexample:
  "classify (''a'' @ [LF] @ ''b_1.fastq.gz'') = Inr (Paired, ''b_00_L001_R1_001.fastq.gz'')
   \<and> spec_classify (''a'' @ [LF] @ ''b_1.fastq.gz'')
       = Inr (Paired, ''a'' @ [LF] @ ''b_00_L001_R1_001.fastq.gz'')"
  by (simp add: classify_def spec_classify_def endswith_def group1_def lit_at_end_def strip_suffix_def)

lemma listdir_renamed:
  "listdir (map (\<lambda>(name, content). if name = src then (dst, content) else (name, content))
              (filter (\<lambda>(name, content). name \<noteq> dst) d))
   = map (\<lambda>name. if name = src then dst else name) (filter (\<lambda>name. name \<noteq> dst) (listdir d))"
  by (induction d) (auto simp: listdir_def)

lemma rename_ok:
  assumes "isfile d src"
  shows "\<exists>d'. rename d src dst = Inr d' \<and> set (listdir d') = insert dst (set (listdir d) - {src})"
proof (cases "src = dst")
  case True
  then show ?thesis using assms by (auto simp: rename_def isfile_def)
next
  case False
  let ?d' = "map (\<lambda>(name, content). if name = src then (dst, content) else (name, content))
                  (filter (\<lambda>(name, content). name \<noteq> dst) d)"
  have r: "rename d src dst = Inr ?d'" using assms False by (simp add: rename_def)
  have "src \<in> set (listdir d)" using assms by (simp add: isfile_def)
  then have "set (listdir ?d') = insert dst (set (listdir d) - {src})"
    unfolding listdir_renamed using False by auto
  with r show ?thesis by blast
qed

lemma endswith_fastq_gz:
  "endswith f ''_1.fastq.gz'' \<or> endswith f ''_2.fastq.gz'' \<Longrightarrow> endswith f ''.fastq.gz''"
proof -
  assume "endswith f ''_1.fastq.gz'' \<or> endswith f ''_2.fastq.gz''"
  then obtain p where "f = (p @ ''_1'') @ ''.fastq.gz'' \<or> f = (p @ ''_2'') @ ''.fastq.gz''"
    by (auto simp: endswith_iff)
  then show ?thesis unfolding endswith_iff by blast
qed

lemma spec_classify_fail:
  "\<not> endswith f ''.fastq.gz'' \<Longrightarrow> spec_classify f = Inl AttributeError"
  using endswith_fastq_gz [of f] by (auto simp: spec_classify_def)

lemma spec_classify_ok:
  "endswith f ''.fastq.gz'' \<Longrightarrow> \<exists>k n. spec_classify f = Inr (k, n)"
  by (simp add: spec_classify_def)

lemma spec_names_Cons:
  "spec_classify f = Inr (k, n) \<Longrightarrow>
   spec_names kind (f # fs) = (if k = kind then n # spec_names kind fs else spec_names kind fs)"
  by (simp add: spec_names_def map_filter_simps)

lemma rename_loop_step:
  assumes "LF \<notin> set f" "isfile d f" "spec_classify f = Inr (k, n)"
  shows "\<exists>d1. rename_loop (f # fs) s p d =
               rename_loop fs (if k = Single then s @ [n] else s)
                 (if k = Paired then p @ [n] else p) d1
            \<and> set (listdir d1) = insert n (set (listdir d) - {f})"
proof -
  have cl: "classify f = Inr (k, n)" using assms(1,3) by (simp add: classify_spec)
  from rename_ok [OF assms(2), of n] obtain d1 where
    d1: "rename d f n = Inr d1" "set (listdir d1) = insert n (set (listdir d) - {f})" by blast
  have "rename_loop (f # fs) s p d =
          rename_loop fs (if k = Single then s @ [n] else s) (if k = Paired then p @ [n] else p) d1"
    using cl d1(1) by (cases k) simp_all
  with d1(2) show ?thesis by blast
qed

lemma spec_names_step:
  assumes "spec_classify f = Inr (k, n)"
  shows "(if k = Single then s @ [n] else s) @ spec_names Single fs = s @ spec_names Single (f # fs)"
    and "(if k = Paired then p @ [n] else p) @ spec_names Paired fs = p @ spec_names Paired (f # fs)"
    and "set (spec_names Single (f # fs)) \<union> set (spec_names Paired (f # fs))
           = insert n (set (spec_names Single fs) \<union> set (spec_names Paired fs))"
  by (cases k; simp add: spec_names_Cons [OF assms])+

lemma rename_loop_fails:
  assumes "distinct fs" "set fs \<subseteq> set (listdir d)" "\<forall>f\<in>set fs. LF \<notin> set f"
    and "\<not> (\<forall>f\<in>set fs. endswith f ''.fastq.gz'')"
  shows "rename_loop fs s p d = Inl AttributeError"
  using assms
proof (induction fs arbitrary: s p d)
  case Nil
  then show ?case by simp
next
  case (Cons f fs)
  have nl: "LF \<notin> set f" using Cons.prems(3) by simp
  show ?case
  proof (cases "endswith f ''.fastq.gz''")
    case False
    then show ?thesis using nl by (simp add: classify_spec spec_classify_fail)
  next
    case True
    then obtain k n where kn: "spec_classify f = Inr (k, n)" using spec_classify_ok by blast
    have "isfile d f" using Cons.prems(2) by (simp add: isfile_def)
    from rename_loop_step [OF nl this kn, of fs s p] obtain d1 where
      step: "rename_loop (f # fs) s p d =
               rename_loop fs (if k = Single then s @ [n] else s)
                 (if k = Paired then p @ [n] else p) d1"
      and d1: "set (listdir d1) = insert n (set (listdir d) - {f})" by blast
    have sub: "set fs \<subseteq> set (listdir d1)" using Cons.prems(1,2) d1 by auto
    have dist: "distinct fs" and nls: "\<forall>f\<in>set fs. LF \<notin> set f"
      using Cons.prems by simp_all
    have bad: "\<not> (\<forall>f\<in>set fs. endswith f ''.fastq.gz'')" using Cons.prems(4) True by simp
    show ?thesis unfolding step by (rule Cons.IH [OF dist sub nls bad])
  qed
qed

lemma rename_loop_succeeds:
  assumes "distinct fs" "set fs \<subseteq> set (listdir d)" "\<forall>f\<in>set fs. LF \<notin> set f"
    and "\<forall>f\<in>set fs. endswith f ''.fastq.gz''"
  shows "\<exists>d'. rename_loop fs s p d =
                 Inr (s @ spec_names Single fs, p @ spec_names Paired fs, d')
             \<and> set (listdir d') \<subseteq>
                 (set (listdir d) - set fs)
                   \<union> (set (spec_names Single fs) \<union> set (spec_names Paired fs))"
  using assms
proof (induction fs arbitrary: s p d)
  case Nil
  then show ?case by (simp add: spec_names_def map_filter_simps)
next
  case (Cons f fs)
  have nl: "LF \<notin> set f" using Cons.prems(3) by simp
  have "endswith f ''.fastq.gz''" using Cons.prems(4) by simp
  then obtain k n where kn: "spec_classify f = Inr (k, n)" using spec_classify_ok by blast
  have "isfile d f" using Cons.prems(2) by (simp add: isfile_def)
  from rename_loop_step [OF nl this kn, of fs s p] obtain d1 where
    step: "rename_loop (f # fs) s p d =
             rename_loop fs (if k = Single then s @ [n] else s)
               (if k = Paired then p @ [n] else p) d1"
    and d1: "set (listdir d1) = insert n (set (listdir d) - {f})" by blast
  have sub: "set fs \<subseteq> set (listdir d1)" using Cons.prems(1,2) d1 by auto
  have dist: "distinct fs" and nls: "\<forall>f\<in>set fs. LF \<notin> set f"
    and ok: "\<forall>f\<in>set fs. endswith f ''.fastq.gz''"
    using Cons.prems by simp_all
  from Cons.IH [OF dist sub nls ok, of "if k = Single then s @ [n] else s"
      "if k = Paired then p @ [n] else p"]
  obtain d' where
    res: "rename_loop fs (if k = Single then s @ [n] else s) (if k = Paired then p @ [n] else p) d1
            = Inr ((if k = Single then s @ [n] else s) @ spec_names Single fs,
                   (if k = Paired then p @ [n] else p) @ spec_names Paired fs, d')"
    and incl: "set (listdir d') \<subseteq> (set (listdir d1) - set fs)
                   \<union> (set (spec_names Single fs) \<union> set (spec_names Paired fs))"
    by blast
  have r: "rename_loop (f # fs) s p d =
             Inr (s @ spec_names Single (f # fs), p @ spec_names Paired (f # fs), d')"
    unfolding step res spec_names_step(1,2) [OF kn] ..
  have "set (listdir d') \<subseteq> (set (listdir d) - set (f # fs))
                   \<union> (set (spec_names Single (f # fs)) \<union> set (spec_names Paired (f # fs)))"
    unfolding spec_names_step(3) [OF kn] using incl d1 by auto
  with r show ?case by blast
qed

text \<open>
  What \<^verbatim>\<open>os.rename\<close> and the loop do to the directory seen as a map, and what the moves
  add up to when the new names collide neither with each other nor with the old names.
\<close>

lemma map_of_renamed:
  "src \<noteq> dst \<Longrightarrow>
   map_of (map (\<lambda>(name, content). if name = src then (dst, content) else (name, content))
              (filter (\<lambda>(name, content). name \<noteq> dst) d))
   = move (map_of d) src dst"
  by (induction d) (auto simp: move_def fun_eq_iff)

lemma rename_map_of: "rename d src dst = Inr d1 \<Longrightarrow> map_of d1 = move (map_of d) src dst"
proof (cases "src = dst")
  case True
  assume "rename d src dst = Inr d1"
  then show ?thesis using True by (auto simp: rename_def move_def split: if_splits)
next
  case False
  assume "rename d src dst = Inr d1"
  then have "d1 = map (\<lambda>(name, content). if name = src then (dst, content) else (name, content))
                  (filter (\<lambda>(name, content). name \<noteq> dst) d)"
    using False by (auto simp: rename_def split: if_splits)
  then show ?thesis using map_of_renamed [OF False] by simp
qed

lemma rename_distinct:
  assumes "rename d src dst = Inr d1" "distinct (listdir d)"
  shows "distinct (listdir d1)"
proof (cases "src = dst")
  case True
  then show ?thesis using assms by (auto simp: rename_def split: if_splits)
next
  case False
  then have d1: "d1 = map (\<lambda>(name, content). if name = src then (dst, content) else (name, content))
                  (filter (\<lambda>(name, content). name \<noteq> dst) d)"
    using assms(1) by (auto simp: rename_def split: if_splits)
  have l: "listdir d1 = map (\<lambda>name. if name = src then dst else name)
                              (filter (\<lambda>name. name \<noteq> dst) (listdir d))"
    unfolding d1 by (rule listdir_renamed)
  have "inj_on (\<lambda>name. if name = src then dst else name)
          (set (filter (\<lambda>name. name \<noteq> dst) (listdir d)))"
    by (auto simp: inj_on_def)
  then show ?thesis unfolding l using assms(2) by (simp add: distinct_map)
qed

lemma rename_loop_moves:
  assumes "rename_loop fs s p d = Inr (s', p', d')" "\<forall>f\<in>set fs. LF \<notin> set f"
  shows "map_of d' = foldl (\<lambda>m f. move m f (spec_new_name f)) (map_of d) fs
       \<and> (distinct (listdir d) \<longrightarrow> distinct (listdir d'))"
  using assms
proof (induction fs arbitrary: s p d)
  case Nil
  then show ?case by simp
next
  case (Cons f fs)
  from Cons.prems(1) obtain k n where cl: "classify f = Inr (k, n)"
    by (cases "classify f") auto
  from Cons.prems(1) cl obtain d1 where rn: "rename d f n = Inr d1"
    by (cases "rename d f n") auto
  have "spec_classify f = Inr (k, n)" using cl Cons.prems(2) by (simp add: classify_spec)
  then have nn: "spec_new_name f = n" by (simp add: spec_new_name_def)
  have nls: "\<forall>f\<in>set fs. LF \<notin> set f" using Cons.prems(2) by simp
  obtain s1 p1 where step: "rename_loop fs s1 p1 d1 = Inr (s', p', d')"
    using Cons.prems(1) cl rn by (cases k) auto
  from Cons.IH [OF step nls]
  have ih: "map_of d' = foldl (\<lambda>m f. move m f (spec_new_name f)) (map_of d1) fs"
    "distinct (listdir d1) \<longrightarrow> distinct (listdir d')" by simp_all
  show ?case
    using ih rename_map_of [OF rn] rename_distinct [OF rn] nn by simp
qed

lemma foldl_move_apart:
  assumes "distinct fs" "inj_on g (set fs)" "g ` set fs \<inter> set fs = {}"
  shows "(\<forall>f\<in>set fs. foldl (\<lambda>m f. move m f (g f)) m fs (g f) = m f)
       \<and> (\<forall>x. x \<notin> g ` set fs \<longrightarrow>
             foldl (\<lambda>m f. move m f (g f)) m fs x = (if x \<in> set fs then None else m x))"
  using assms
proof (induction fs arbitrary: m)
  case Nil
  then show ?case by simp
next
  case (Cons a fs)
  let ?m1 = "move m a (g a)"
  have d: "distinct fs" and i: "inj_on g (set fs)" and dj: "g ` set fs \<inter> set fs = {}"
    using Cons.prems by (auto simp: inj_on_def)
  note ih = Cons.IH [OF d i dj, of ?m1]
  have ga: "g a \<noteq> a" "g a \<notin> set fs" "g a \<notin> g ` set fs" "a \<notin> set fs"
    using Cons.prems by (auto simp: inj_on_def)
  have nota: "\<forall>f\<in>set fs. g f \<noteq> a \<and> f \<noteq> g a \<and> f \<noteq> a"
    using Cons.prems by auto
  have one: "\<forall>f\<in>set (a # fs). foldl (\<lambda>m f. move m f (g f)) m (a # fs) (g f) = m f"
  proof
    fix f assume f: "f \<in> set (a # fs)"
    show "foldl (\<lambda>m f. move m f (g f)) m (a # fs) (g f) = m f"
    proof (cases "f = a")
      case True
      have "foldl (\<lambda>m f. move m f (g f)) ?m1 fs (g a) = (if g a \<in> set fs then None else ?m1 (g a))"
        using ih ga(3) by blast
      then show ?thesis using True ga by (simp add: move_def)
    next
      case False
      then have fin: "f \<in> set fs" using f by simp
      then have "foldl (\<lambda>m f. move m f (g f)) ?m1 fs (g f) = ?m1 f" using ih by blast
      moreover have "?m1 f = m f" using nota fin by (auto simp: move_def)
      ultimately show ?thesis by simp
    qed
  qed
  have two: "\<forall>x. x \<notin> g ` set (a # fs) \<longrightarrow>
             foldl (\<lambda>m f. move m f (g f)) m (a # fs) x = (if x \<in> set (a # fs) then None else m x)"
  proof (intro allI impI)
    fix x assume x: "x \<notin> g ` set (a # fs)"
    then have "x \<notin> g ` set fs" "x \<noteq> g a" by auto
    then have "foldl (\<lambda>m f. move m f (g f)) ?m1 fs x = (if x \<in> set fs then None else ?m1 x)"
      using ih by blast
    then show "foldl (\<lambda>m f. move m f (g f)) m (a # fs) x = (if x \<in> set (a # fs) then None else m x)"
      using \<open>x \<noteq> g a\<close> ga by (auto simp: move_def)
  qed
  from one two show ?case by blast
qed

lemma map_of_listdir: "(map_of e x = None) = (x \<notin> set (listdir e))"
  by (simp add: listdir_def map_of_eq_None_iff)

text \<open>
  C4, amended: in a scratch directory (each name listed once) whose names hold no line
  feed, every name is classified as the three suffix rules say, with the accession the
  name stripped of the matched suffix. When every name ends in \<^verbatim>\<open>.fastq.gz\<close> the loop returns
  the new single-end and paired-end names in listing order, and the directory it leaves is
  the one in which each file of the listing, in turn, has been moved to its new name; when
  the new names collide neither with each other nor with the old names, that directory
  holds exactly the new names, each with the content of the file it was made from. When
  some name does not end in \<^verbatim>\<open>.fastq.gz\<close>, the loop fails with the extraction failure.
\<close>

theorem classifier_applies_suffix_rules:
  assumes "distinct (listdir d)" and "\<forall>f\<in>set (listdir d). LF \<notin> set f"
  shows "(\<forall>f\<in>set (listdir d). classify f = spec_classify f)
       \<and> ((\<forall>f\<in>set (listdir d). endswith f ''.fastq.gz'') \<longrightarrow>
            (\<exists>d'. rename_loop (listdir d) [] [] d =
                       Inr (spec_names Single (listdir d), spec_names Paired (listdir d), d')
                   \<and> set (listdir d') \<subseteq>
                       set (spec_names Single (listdir d)) \<union> set (spec_names Paired (listdir d))
                   \<and> distinct (listdir d')
                   \<and> map_of d' = foldl (\<lambda>m f. move m f (spec_new_name f)) (map_of d) (listdir d)
                   \<and> (inj_on spec_new_name (set (listdir d))
                        \<and> spec_new_name ` set (listdir d) \<inter> set (listdir d) = {} \<longrightarrow>
                       set (listdir d') = spec_new_name ` set (listdir d)
                       \<and> (\<forall>f\<in>set (listdir d). map_of d' (spec_new_name f) = map_of d f))))
       \<and> (\<not> (\<forall>f\<in>set (listdir d). endswith f ''.fastq.gz'') \<longrightarrow>
            rename_loop (listdir d) [] [] d = Inl AttributeError)"
proof (intro conjI impI)
  show "\<forall>f\<in>set (listdir d). classify f = spec_classify f"
    using assms(2) by (simp add: classify_spec)
next
  assume "\<forall>f\<in>set (listdir d). endswith f ''.fastq.gz''"
  from rename_loop_succeeds [OF assms(1) subset_refl assms(2) this, of "[]" "[]"]
  obtain d' where
    res: "rename_loop (listdir d) [] [] d =
            Inr (spec_names Single (listdir d), spec_names Paired (listdir d), d')"
    and incl: "set (listdir d') \<subseteq>
                 set (spec_names Single (listdir d)) \<union> set (spec_names Paired (listdir d))"
    by auto
  from rename_loop_moves [OF res assms(2)] assms(1)
  have mp: "map_of d' = foldl (\<lambda>m f. move m f (spec_new_name f)) (map_of d) (listdir d)"
    and dist: "distinct (listdir d')" by simp_all
  have apart: "inj_on spec_new_name (set (listdir d))
                 \<and> spec_new_name ` set (listdir d) \<inter> set (listdir d) = {} \<longrightarrow>
               set (listdir d') = spec_new_name ` set (listdir d)
               \<and> (\<forall>f\<in>set (listdir d). map_of d' (spec_new_name f) = map_of d f)"
  proof
    assume c: "inj_on spec_new_name (set (listdir d))
                 \<and> spec_new_name ` set (listdir d) \<inter> set (listdir d) = {}"
    from foldl_move_apart [OF assms(1), of spec_new_name "map_of d"] c
    have one: "\<forall>f\<in>set (listdir d). map_of d' (spec_new_name f) = map_of d f"
      and two: "\<forall>x. x \<notin> spec_new_name ` set (listdir d) \<longrightarrow>
                  map_of d' x = (if x \<in> set (listdir d) then None else map_of d x)"
      unfolding mp by blast+
    have "set (listdir d') = spec_new_name ` set (listdir d)"
    proof (intro set_eqI iffI)
      fix x assume "x \<in> set (listdir d')"
      then have ne: "map_of d' x \<noteq> None" unfolding map_of_listdir by simp
      show "x \<in> spec_new_name ` set (listdir d)"
      proof (rule ccontr)
        assume "x \<notin> spec_new_name ` set (listdir d)"
        with two have "map_of d' x = (if x \<in> set (listdir d) then None else map_of d x)" by blast
        moreover have "x \<notin> set (listdir d) \<Longrightarrow> map_of d x = None"
          unfolding map_of_listdir .
        ultimately have "map_of d' x = None" by (cases "x \<in> set (listdir d)") simp_all
        with ne show False by simp
      qed
    next
      fix x assume "x \<in> spec_new_name ` set (listdir d)"
      then obtain f where f: "f \<in> set (listdir d)" "x = spec_new_name f" by blast
      with one have "map_of d' x = map_of d f" by simp
      moreover have "map_of d f \<noteq> None" unfolding map_of_listdir using f(1) by simp
      ultimately have "map_of d' x \<noteq> None" by simp
      then show "x \<in> set (listdir d')" unfolding map_of_listdir by simp
    qed
    with one show "set (listdir d') = spec_new_name ` set (listdir d)
               \<and> (\<forall>f\<in>set (listdir d). map_of d' (spec_new_name f) = map_of d f)" by blast
  qed
  from res incl dist mp apart
  show "\<exists>d'. rename_loop (listdir d) [] [] d =
                       Inr (spec_names Single (listdir d), spec_names Paired (listdir d), d')
                   \<and> set (listdir d') \<subseteq>
                       set (spec_names Single (listdir d)) \<union> set (spec_names Paired (listdir d))
                   \<and> distinct (listdir d')
                   \<and> map_of d' = foldl (\<lambda>m f. move m f (spec_new_name f)) (map_of d) (listdir d)
                   \<and> (inj_on spec_new_name (set (listdir d))
                        \<and> spec_new_name ` set (listdir d) \<inter> set (listdir d) = {} \<longrightarrow>
                       set (listdir d') = spec_new_name ` set (listdir d)
                       \<and> (\<forall>f\<in>set (listdir d). map_of d' (spec_new_name f) = map_of d f))"
    by blast
next
  assume "\<not> (\<forall>f\<in>set (listdir d). endswith f ''.fastq.gz'')"
  from rename_loop_fails [OF assms(1) subset_refl assms(2) this]
  show "rename_loop (listdir d) [] [] d = Inl AttributeError" .
qed

text \<open>A directory of three files renamed, and one with an uncompressed file.\<close>

lemma rename_loop_downloaded:
  "rename_loop (listdir downloaded_dir) [] [] downloaded_dir =
          Inr ([''SRR2_00_L001_R1_001.fastq.gz''],
               [''SRR1_00_L001_R1_001.fastq.gz'', ''SRR1_00_L001_R2_001.fastq.gz''], renamed_dir)"
  by code_simp

theorem classifier_applies_suffix_rules_witness:
  "classify ''SRR1_1.fastq.gz'' = Inr (Paired, ''SRR1_00_L001_R1_001.fastq.gz'')
   \<and> classify ''SRR2.fastq.gz'' = Inr (Single, ''SRR2_00_L001_R1_001.fastq.gz'')
   \<and> classify ''SRR1_2.fastq.gz'' = Inr (Paired, ''SRR1_00_L001_R2_001.fastq.gz'')
   \<and> rename_loop (listdir downloaded_dir) [] [] downloaded_dir =
          Inr ([''SRR2_00_L001_R1_001.fastq.gz''],
               [''SRR1_00_L001_R1_001.fastq.gz'', ''SRR1_00_L001_R2_001.fastq.gz''], renamed_dir)
   \<and> map_of renamed_dir ''SRR1_00_L001_R1_001.fastq.gz'' = map_of downloaded_dir ''SRR1_1.fastq.gz''
   \<and> map_of renamed_dir ''SRR2_00_L001_R1_001.fastq.gz'' = map_of downloaded_dir ''SRR2.fastq.gz''
   \<and> map_of renamed_dir ''SRR1_00_L001_R2_001.fastq.gz'' = map_of downloaded_dir ''SRR1_2.fastq.gz''
   \<and> set (listdir renamed_dir) = {''SRR1_00_L001_R1_001.fastq.gz'',
        ''SRR2_00_L001_R1_001.fastq.gz'', ''SRR1_00_L001_R2_001.fastq.gz''}
   \<and> rename_loop (listdir plain_dir) [] [] plain_dir = Inl AttributeError"
proof -
  have l: "listdir downloaded_dir = [''SRR1_1.fastq.gz'', ''SRR2.fastq.gz'', ''SRR1_2.fastq.gz'']"
    "listdir plain_dir = [''SRR1_1.fastq.gz'', ''SRR3.fastq'']"
    by (simp_all add: listdir_def downloaded_dir_def plain_dir_def)
  have sc: "spec_classify ''SRR1_1.fastq.gz'' = Inr (Paired, ''SRR1_00_L001_R1_001.fastq.gz'')"
    "spec_classify ''SRR2.fastq.gz'' = Inr (Single, ''SRR2_00_L001_R1_001.fastq.gz'')"
    "spec_classify ''SRR1_2.fastq.gz'' = Inr (Paired, ''SRR1_00_L001_R2_001.fastq.gz'')"
    by (simp_all add: spec_classify_def endswith_def strip_suffix_def)
  have nn: "spec_new_name ''SRR1_1.fastq.gz'' = ''SRR1_00_L001_R1_001.fastq.gz''"
    "spec_new_name ''SRR2.fastq.gz'' = ''SRR2_00_L001_R1_001.fastq.gz''"
    "spec_new_name ''SRR1_2.fastq.gz'' = ''SRR1_00_L001_R2_001.fastq.gz''"
    by (simp_all add: spec_new_name_def sc)
  have e: "endswith ''SRR1_1.fastq.gz'' ''.fastq.gz''" "endswith ''SRR2.fastq.gz'' ''.fastq.gz''"
    "endswith ''SRR1_2.fastq.gz'' ''.fastq.gz''" "\<not> endswith ''SRR3.fastq'' ''.fastq.gz''"
    by (simp_all add: endswith_def)
  have a: "distinct (listdir downloaded_dir)" "\<forall>f\<in>set (listdir downloaded_dir). LF \<notin> set f"
    unfolding l by simp_all
  have b: "distinct (listdir plain_dir)" "\<forall>f\<in>set (listdir plain_dir). LF \<notin> set f"
    unfolding l by simp_all
  have all: "\<forall>f\<in>set (listdir downloaded_dir). endswith f ''.fastq.gz''"
    unfolding l by (simp add: e)
  have notall: "\<not> (\<forall>f\<in>set (listdir plain_dir). endswith f ''.fastq.gz'')"
    unfolding l by (simp add: e)
  have apart: "inj_on spec_new_name (set (listdir downloaded_dir))
      \<and> spec_new_name ` set (listdir downloaded_dir) \<inter> set (listdir downloaded_dir) = {}"
    unfolding l by (simp add: nn)
  from classifier_applies_suffix_rules [OF a] all
  have 1: "\<forall>f\<in>set (listdir downloaded_dir). classify f = spec_classify f"
    and 2: "\<exists>d'. rename_loop (listdir downloaded_dir) [] [] downloaded_dir =
          Inr (spec_names Single (listdir downloaded_dir),
               spec_names Paired (listdir downloaded_dir), d')
        \<and> (inj_on spec_new_name (set (listdir downloaded_dir))
                        \<and> spec_new_name ` set (listdir downloaded_dir)
                            \<inter> set (listdir downloaded_dir) = {} \<longrightarrow>
                       set (listdir d') = spec_new_name ` set (listdir downloaded_dir)
                       \<and> (\<forall>f\<in>set (listdir downloaded_dir).
                             map_of d' (spec_new_name f) = map_of downloaded_dir f))"
    by blast+
  from 2 obtain d' where d': "rename_loop (listdir downloaded_dir) [] [] downloaded_dir =
          Inr (spec_names Single (listdir downloaded_dir),
               spec_names Paired (listdir downloaded_dir), d')"
    "set (listdir d') = spec_new_name ` set (listdir downloaded_dir)"
    "\<forall>f\<in>set (listdir downloaded_dir). map_of d' (spec_new_name f) = map_of downloaded_dir f"
    using apart by blast
  have same: "d' = renamed_dir" using d'(1) rename_loop_downloaded by simp
  from classifier_applies_suffix_rules [OF b] notall
  have 3: "rename_loop (listdir plain_dir) [] [] plain_dir = Inl AttributeError"
    by blast
  from 1 have 4: "classify ''SRR1_1.fastq.gz'' = spec_classify ''SRR1_1.fastq.gz''"
    "classify ''SRR2.fastq.gz'' = spec_classify ''SRR2.fastq.gz''"
    "classify ''SRR1_2.fastq.gz'' = spec_classify ''SRR1_2.fastq.gz''"
    unfolding l by simp_all
  have 5: "set (listdir renamed_dir) = {''SRR1_00_L001_R1_001.fastq.gz'',
        ''SRR2_00_L001_R1_001.fastq.gz'', ''SRR1_00_L001_R2_001.fastq.gz''}"
    using d'(2) unfolding same l by (simp add: nn)
  have 6: "map_of renamed_dir ''SRR1_00_L001_R1_001.fastq.gz'' = map_of downloaded_dir ''SRR1_1.fastq.gz''"
    "map_of renamed_dir ''SRR2_00_L001_R1_001.fastq.gz'' = map_of downloaded_dir ''SRR2.fastq.gz''"
    "map_of renamed_dir ''SRR1_00_L001_R2_001.fastq.gz'' = map_of downloaded_dir ''SRR1_2.fastq.gz''"
    using d'(3) unfolding same l by (simp_all add: nn)
  show ?thesis using 3 4 5 6 rename_loop_downloaded unfolding sc by simp
qed

section \<open>Properties of the Batch Fetcher\<close>

lemma run_cmd_error: "run_cmd_fasterq tool acc threads r w = Inl e \<Longrightarrow> e = UnboundLocalError"
  by (auto simp: run_cmd_fasterq_def split: prod.splits option.splits)

lemma run_cmd_nonneg:
  "0 \<le> r \<Longrightarrow> \<exists>res w'. run_cmd_fasterq tool acc threads r w = Inr (res, w')"
proof -
  assume nn: "0 \<le> r"
  obtain res w' where t: "tool acc threads w = (res, w')"
    by (cases "tool acc threads w")
  let ?next = "fasterq_loop tool acc threads
                 (if \<not> fastq_present acc w' then r - 1 else - 1) (Some res) w'"
  obtain r' w'' log where n: "?next = (r', w'', log)"
    by (cases ?next)
  have "r' \<noteq> None"
    using loop_result_bound [of tool acc threads _ res w'] n by (metis fst_conv)
  then obtain y where "r' = Some y" by auto
  then show ?thesis using nn t n by (simp add: loop_step run_cmd_fasterq_def)
qed

lemma batch_error_iff:
  "run_fasterq_dump_for_all tool accs threads r w = Inl (ValueError m) \<longleftrightarrow>
     (\<exists>i<length (retrievals tool accs threads r w).
         scratch (snd (retrievals tool accs threads r w ! i)) = []
       \<and> (\<forall>j<i. scratch (snd (retrievals tool accs threads r w ! j)) \<noteq> [])
       \<and> ValueError m = download_error (accs ! i)
                           (stderr (fst (retrievals tool accs threads r w ! i))))"
proof (induction accs arbitrary: w)
  case Nil
  then show ?case by simp
next
  case (Cons acc accs)
  show ?case
  proof (cases "run_cmd_fasterq tool acc threads r w")
    case (Inl e)
    then have "e = UnboundLocalError" by (rule run_cmd_error)
    then show ?thesis using Inl by simp
  next
    case (Inr p)
    obtain res w' where p: "p = (res, w')" by (cases p)
    let ?rs = "retrievals tool accs threads r w'"
    have rs: "retrievals tool (acc # accs) threads r w = (res, w') # ?rs"
      using Inr p by simp
    show ?thesis
    proof (cases "scratch w' = []")
      case True
      have run: "run_fasterq_dump_for_all tool (acc # accs) threads r w
                   = Inl (download_error acc (stderr res))"
        using Inr p True by (simp add: listdir_def)
      have "(\<exists>i<length ((res, w') # ?rs).
               scratch (snd (((res, w') # ?rs) ! i)) = []
             \<and> (\<forall>j<i. scratch (snd (((res, w') # ?rs) ! j)) \<noteq> [])
             \<and> ValueError m = download_error ((acc # accs) ! i)
                                 (stderr (fst (((res, w') # ?rs) ! i))))
            \<longleftrightarrow> ValueError m = download_error acc (stderr res)"
      proof
        assume "\<exists>i<length ((res, w') # ?rs).
               scratch (snd (((res, w') # ?rs) ! i)) = []
             \<and> (\<forall>j<i. scratch (snd (((res, w') # ?rs) ! j)) \<noteq> [])
             \<and> ValueError m = download_error ((acc # accs) ! i)
                                 (stderr (fst (((res, w') # ?rs) ! i)))"
        then obtain i where i: "\<forall>j<i. scratch (snd (((res, w') # ?rs) ! j)) \<noteq> []"
          "ValueError m = download_error ((acc # accs) ! i) (stderr (fst (((res, w') # ?rs) ! i)))"
          by blast
        have "i = 0"
        proof (rule ccontr)
          assume "i \<noteq> 0"
          then have "0 < i" by simp
          with i(1) have "scratch (snd (((res, w') # ?rs) ! 0)) \<noteq> []" by blast
          with True show False by simp
        qed
        with i(2) show "ValueError m = download_error acc (stderr res)" by simp
      next
        assume "ValueError m = download_error acc (stderr res)"
        then have "0 < length ((res, w') # ?rs) \<and> scratch (snd (((res, w') # ?rs) ! 0)) = []
             \<and> (\<forall>j<0. scratch (snd (((res, w') # ?rs) ! j)) \<noteq> [])
             \<and> ValueError m = download_error ((acc # accs) ! 0)
                                 (stderr (fst (((res, w') # ?rs) ! 0)))"
          using True by simp
        then show "\<exists>i<length ((res, w') # ?rs).
               scratch (snd (((res, w') # ?rs) ! i)) = []
             \<and> (\<forall>j<i. scratch (snd (((res, w') # ?rs) ! j)) \<noteq> [])
             \<and> ValueError m = download_error ((acc # accs) ! i)
                                 (stderr (fst (((res, w') # ?rs) ! i)))"
          by blast
      qed
      then show ?thesis unfolding rs run by auto
    next
      case False
      have run: "run_fasterq_dump_for_all tool (acc # accs) threads r w
                   = run_fasterq_dump_for_all tool accs threads r w'"
        using Inr p False by (simp add: listdir_def)
      have "(\<exists>i<length ((res, w') # ?rs).
               scratch (snd (((res, w') # ?rs) ! i)) = []
             \<and> (\<forall>j<i. scratch (snd (((res, w') # ?rs) ! j)) \<noteq> [])
             \<and> ValueError m = download_error ((acc # accs) ! i)
                                 (stderr (fst (((res, w') # ?rs) ! i))))
            \<longleftrightarrow> (\<exists>i<length ?rs.
               scratch (snd (?rs ! i)) = []
             \<and> (\<forall>j<i. scratch (snd (?rs ! j)) \<noteq> [])
             \<and> ValueError m = download_error (accs ! i) (stderr (fst (?rs ! i))))"
        using False by (simp add: Ex_less_Suc2 All_less_Suc2)
      then show ?thesis unfolding rs run Cons.IH by simp
    qed
  qed
qed

lemma batch_no_error:
  "0 \<le> r \<Longrightarrow> \<forall>p\<in>set (retrievals tool accs threads r w). scratch (snd p) \<noteq> [] \<Longrightarrow>
   run_fasterq_dump_for_all tool accs threads r w
     = Inr (last (w # map snd (retrievals tool accs threads r w)))"
proof (induction accs arbitrary: w)
  case Nil
  then show ?case by simp
next
  case (Cons acc accs)
  from run_cmd_nonneg [OF Cons.prems(1), of tool acc threads w]
  obtain res w' where rc: "run_cmd_fasterq tool acc threads r w = Inr (res, w')" by blast
  have rs: "retrievals tool (acc # accs) threads r w = (res, w') # retrievals tool accs threads r w'"
    using rc by simp
  have ne: "scratch w' \<noteq> []" using Cons.prems(2) unfolding rs by simp
  have rest: "\<forall>p\<in>set (retrievals tool accs threads r w'). scratch (snd p) \<noteq> []"
    using Cons.prems(2) unfolding rs by simp
  have "run_fasterq_dump_for_all tool (acc # accs) threads r w
          = run_fasterq_dump_for_all tool accs threads r w'"
    using rc ne by (simp add: listdir_def)
  then show ?case using Cons.IH [OF Cons.prems(1) rest] unfolding rs by simp
qed

lemma run_bad_empty: "run_cmd_fasterq tool_only_srr1 ''BAD1'' 6 1 empty_world
    = Inr (\<lparr>returncode = 3, stdout = [], stderr = ''no data''\<rparr>, empty_world)"
  by (simp add: run_cmd_fasterq_def loop_step loop_stop tool_only_srr1_def fastq_present_def
      isfile_def listdir_def empty_world_def)

lemma run_srr1_empty: "run_cmd_fasterq tool_only_srr1 ''SRR1'' 6 1 empty_world
    = Inr (\<lparr>returncode = 0, stdout = [], stderr = []\<rparr>, srr1_world)"
  by (simp add: run_cmd_fasterq_def loop_step loop_stop tool_only_srr1_def fastq_present_def
      isfile_def listdir_def empty_world_def srr1_world_def)

lemma run_bad_srr1: "run_cmd_fasterq tool_only_srr1 ''BAD1'' 6 1 srr1_world
    = Inr (\<lparr>returncode = 3, stdout = [], stderr = ''no data''\<rparr>, srr1_world)"
  by (simp add: run_cmd_fasterq_def loop_step loop_stop tool_only_srr1_def fastq_present_def
      isfile_def listdir_def srr1_world_def)

text \<open>
  C6: the Batch Fetcher raises the \<open>ValueError\<close> if and only if there is an accession after
  whose retrieval the whole scratch directory is empty; the error is raised at the first
  such accession and its message is the name of that accession, the words
  \<^verbatim>\<open> could not be downloaded with the following fasterq-dump error returned: \<close> and the
  standard error of the accession's last invocation. When the directory is non-empty after every retrieval (and the budget is
  not negative) the batch returns with no error: a file left by an earlier accession
  keeps the directory non-empty for a later accession that retrieved nothing.
\<close>

theorem batch_error_iff_scratch_empty:
  "(run_fasterq_dump_for_all tool accs threads r w = Inl (ValueError m) \<longleftrightarrow>
     (\<exists>i<length (retrievals tool accs threads r w).
         scratch (snd (retrievals tool accs threads r w ! i)) = []
       \<and> (\<forall>j<i. scratch (snd (retrievals tool accs threads r w ! j)) \<noteq> [])
       \<and> m = accs ! i
               @ '' could not be downloaded with the following fasterq-dump error returned: ''
               @ stderr (fst (retrievals tool accs threads r w ! i))))
 \<and> (0 \<le> r \<and> (\<forall>p\<in>set (retrievals tool accs threads r w). scratch (snd p) \<noteq> []) \<longrightarrow>
      run_fasterq_dump_for_all tool accs threads r w
        = Inr (last (w # map snd (retrievals tool accs threads r w))))"
  using batch_error_iff [of tool accs threads r w m] batch_no_error [of r tool accs threads w]
  by (simp add: download_error_def)

theorem batch_error_iff_scratch_empty_witness:
  "run_fasterq_dump_for_all tool_only_srr1 [''BAD1'', ''SRR1''] 6 1 empty_world
     = Inl (ValueError
        ''BAD1 could not be downloaded with the following fasterq-dump error returned: no data'')
   \<and> \<not> fastq_present ''BAD1'' srr1_world
   \<and> run_fasterq_dump_for_all tool_only_srr1 [''SRR1'', ''BAD1''] 6 1 empty_world = Inr srr1_world"
proof -
  let ?m = "''BAD1 could not be downloaded with the following fasterq-dump error returned: no data''"
  have rs1: "retrievals tool_only_srr1 [''BAD1'', ''SRR1''] 6 1 empty_world
      = [(\<lparr>returncode = 3, stdout = [], stderr = ''no data''\<rparr>, empty_world),
         (\<lparr>returncode = 0, stdout = [], stderr = []\<rparr>, srr1_world)]"
    by (simp add: run_bad_empty run_srr1_empty)
  have rs2: "retrievals tool_only_srr1 [''SRR1'', ''BAD1''] 6 1 empty_world
      = [(\<lparr>returncode = 0, stdout = [], stderr = []\<rparr>, srr1_world),
         (\<lparr>returncode = 3, stdout = [], stderr = ''no data''\<rparr>, srr1_world)]"
    by (simp add: run_bad_srr1 run_srr1_empty)
  have "\<exists>i<length (retrievals tool_only_srr1 [''BAD1'', ''SRR1''] 6 1 empty_world).
         scratch (snd (retrievals tool_only_srr1 [''BAD1'', ''SRR1''] 6 1 empty_world ! i)) = []
       \<and> (\<forall>j<i. scratch (snd (retrievals tool_only_srr1 [''BAD1'', ''SRR1''] 6 1 empty_world ! j))
                  \<noteq> [])
       \<and> ?m = [''BAD1'', ''SRR1''] ! i
               @ '' could not be downloaded with the following fasterq-dump error returned: ''
               @ stderr (fst (retrievals tool_only_srr1 [''BAD1'', ''SRR1''] 6 1 empty_world ! i))"
    unfolding rs1 by (rule exI [of _ 0]) (simp add: empty_world_def)
  then have a: "run_fasterq_dump_for_all tool_only_srr1 [''BAD1'', ''SRR1''] 6 1 empty_world
      = Inl (ValueError ?m)"
    using batch_error_iff_scratch_empty [of tool_only_srr1 "[''BAD1'', ''SRR1'']" 6 1 empty_world ?m]
    by blast
  have "(0::int) \<le> 1 \<and> (\<forall>p\<in>set (retrievals tool_only_srr1 [''SRR1'', ''BAD1''] 6 1 empty_world).
           scratch (snd p) \<noteq> [])"
    unfolding rs2 by (simp add: srr1_world_def)
  then have b: "run_fasterq_dump_for_all tool_only_srr1 [''SRR1'', ''BAD1''] 6 1 empty_world
      = Inr (last (empty_world
                     # map snd (retrievals tool_only_srr1 [''SRR1'', ''BAD1''] 6 1 empty_world)))"
    using batch_error_iff_scratch_empty [of tool_only_srr1 "[''SRR1'', ''BAD1'']" 6 1 empty_world ?m]
    by blast
  have c: "\<not> fastq_present ''BAD1'' srr1_world"
    by (simp add: fastq_present_def isfile_def listdir_def srr1_world_def)
  show ?thesis using a b c unfolding rs2 by simp
qed

section \<open>Properties of the Top-level Orchestrator\<close>

lemma update_nonempty: "AList.update k v al \<noteq> []"
  by (cases al) auto

lemma rename_new: "rename d f n = Inr d1 \<Longrightarrow> n \<in> set (listdir d1)"
proof -
  assume r: "rename d f n = Inr d1"
  then have f: "f \<in> set (listdir d)" by (auto simp: rename_def isfile_def split: if_splits)
  show ?thesis
  proof (cases "f = n")
    case True
    then show ?thesis using r f by (auto simp: rename_def split: if_splits)
  next
    case False
    then have "d1 = map (\<lambda>(name, content). if name = f then (n, content) else (name, content))
                  (filter (\<lambda>(name, content). name \<noteq> n) d)"
      using r by (auto simp: rename_def split: if_splits)
    then have "listdir d1 = map (\<lambda>name. if name = f then n else name)
                              (filter (\<lambda>name. name \<noteq> n) (listdir d))"
      by (simp add: listdir_renamed)
    then show ?thesis using f False by auto
  qed
qed

lemma rename_keeps:
  "rename d f n = Inr d1 \<Longrightarrow> x \<in> set (listdir d) \<Longrightarrow> x \<noteq> f \<Longrightarrow> x \<in> set (listdir d1)"
proof -
  assume r: "rename d f n = Inr d1" and x: "x \<in> set (listdir d)" "x \<noteq> f"
  show ?thesis
  proof (cases "f = n")
    case True
    then show ?thesis using r x by (auto simp: rename_def split: if_splits)
  next
    case False
    then have "d1 = map (\<lambda>(name, content). if name = f then (n, content) else (name, content))
                  (filter (\<lambda>(name, content). name \<noteq> n) d)"
      using r by (auto simp: rename_def split: if_splits)
    then have l: "listdir d1 = map (\<lambda>name. if name = f then n else name)
                              (filter (\<lambda>name. name \<noteq> n) (listdir d))"
      by (simp add: listdir_renamed)
    have f: "f \<in> set (listdir d)"
      using r by (auto simp: rename_def isfile_def split: if_splits)
    show ?thesis
    proof (cases "x = n")
      case True
      then show ?thesis unfolding l using f False by auto
    next
      case xn: False
      then show ?thesis unfolding l using x by auto
    qed
  qed
qed

lemma classify_paired_source:
  "classify f = Inr (Paired, n) \<Longrightarrow> endswith f ''_1.fastq.gz'' \<or> endswith f ''_2.fastq.gz''"
  by (auto simp: classify_def split: if_splits sum.splits)

lemma classify_single_new:
  "classify f = Inr (Single, n) \<Longrightarrow> endswith n ''_00_L001_R1_001.fastq.gz''"
  by (auto simp: classify_def endswith_iff split: if_splits sum.splits)

lemma new_name_not_paired_source:
  assumes "endswith x ''_00_L001_R1_001.fastq.gz''"
  shows "\<not> endswith x ''_1.fastq.gz'' \<and> \<not> endswith x ''_2.fastq.gz''"
proof -
  from assms obtain a where x: "x = a @ ''_00_L001_R1_001.fastq.gz''" by (auto simp: endswith_iff)
  show ?thesis unfolding x by (simp add: endswith_def)
qed

lemma rename_loop_last_single:
  "rename_loop fs s p d = Inr (s', p', d') \<Longrightarrow>
   (s \<noteq> [] \<longrightarrow> last s \<in> set (listdir d) \<and> endswith (last s) ''_00_L001_R1_001.fastq.gz'') \<Longrightarrow>
   (s' \<noteq> [] \<longrightarrow> last s' \<in> set (listdir d'))"
proof (induction fs arbitrary: s p d)
  case Nil
  then show ?case by simp
next
  case (Cons f fs)
  from Cons.prems(1) obtain k n where cl: "classify f = Inr (k, n)"
    by (cases "classify f") auto
  from Cons.prems(1) cl obtain d1 where rn: "rename d f n = Inr d1"
    by (cases "rename d f n") auto
  show ?case
  proof (cases k)
    case Single
    have step: "rename_loop fs (s @ [n]) p d1 = Inr (s', p', d')"
      using Cons.prems(1) cl rn Single by simp
    have inv: "s @ [n] \<noteq> [] \<longrightarrow> last (s @ [n]) \<in> set (listdir d1)
                 \<and> endswith (last (s @ [n])) ''_00_L001_R1_001.fastq.gz''"
      using rename_new [OF rn] classify_single_new cl Single by simp
    show ?thesis by (rule Cons.IH [OF step inv])
  next
    case Paired
    have step: "rename_loop fs s (p @ [n]) d1 = Inr (s', p', d')"
      using Cons.prems(1) cl rn Paired by simp
    have inv: "s \<noteq> [] \<longrightarrow> last s \<in> set (listdir d1)
                 \<and> endswith (last s) ''_00_L001_R1_001.fastq.gz''"
    proof
      assume ne: "s \<noteq> []"
      with Cons.prems(2) have l: "last s \<in> set (listdir d)"
        and e: "endswith (last s) ''_00_L001_R1_001.fastq.gz''" by simp_all
      have src: "endswith f ''_1.fastq.gz'' \<or> endswith f ''_2.fastq.gz''"
        using cl Paired by (simp add: classify_paired_source)
      have "last s \<noteq> f" using new_name_not_paired_source [OF e] src by auto
      with rename_keeps [OF rn l] e
      show "last s \<in> set (listdir d1) \<and> endswith (last s) ''_00_L001_R1_001.fastq.gz''" by simp
    qed
    show ?thesis by (rule Cons.IH [OF step inv])
  qed
qed

lemma single_loop_keeps: "c \<noteq> [] \<Longrightarrow> fst (single_loop tmp ls fs c) \<noteq> []"
  by (induction fs arbitrary: c)
     (auto simp: update_nonempty split: prod.splits option.splits)

lemma single_loop_writes:
  "single_loop tmp ls fs c = (c', None) \<Longrightarrow> x \<in> set fs \<Longrightarrow> x \<in> set ls \<Longrightarrow> c' \<noteq> []"
proof (induction fs arbitrary: c)
  case Nil
  then show ?case by simp
next
  case (Cons f fs)
  show ?case
  proof (cases "f \<in> set ls")
    case True
    obtain content err where wr: "write_records (read_fastq_seqs tmp f) [] = (content, err)"
      by (cases "write_records (read_fastq_seqs tmp f) []")
    have "err = None" using Cons.prems(1) True wr by (cases err) auto
    then have "single_loop tmp ls fs (AList.update f content c) = (c', None)"
      using Cons.prems(1) True wr by simp
    then show ?thesis
      using single_loop_keeps [of "AList.update f content c" tmp ls fs] update_nonempty
      by (metis fst_conv)
  next
    case False
    then have "single_loop tmp ls fs c = (c', None)" "x \<in> set fs"
      using Cons.prems by auto
    then show ?thesis using Cons.IH Cons.prems(3) by blast
  qed
qed

lemma write_pair_nonempty: "fst (write_pair tmp f1 f2 c) \<noteq> []"
  by (simp add: write_pair_def case_prod_beta update_nonempty)

lemma double_loop_keeps: "c \<noteq> [] \<Longrightarrow> fst (double_loop tmp ls idx c) \<noteq> []"
proof (induction idx arbitrary: c)
  case Nil
  then show ?case by simp
next
  case (Cons i idx)
  obtain c1 err where wp: "write_pair tmp (ls ! i) (ls ! (i + 1)) c = (c1, err)"
    by (cases "write_pair tmp (ls ! i) (ls ! (i + 1)) c")
  have "c1 \<noteq> []" using write_pair_nonempty [of tmp "ls ! i" "ls ! (i + 1)" c] wp by simp
  then show ?case using Cons wp by (cases err) auto
qed

lemma double_loop_writes:
  "double_loop tmp ls (i # idx) c = (c', None) \<Longrightarrow> c' \<noteq> []"
proof -
  assume a: "double_loop tmp ls (i # idx) c = (c', None)"
  obtain c1 err where wp: "write_pair tmp (ls ! i) (ls ! (i + 1)) c = (c1, err)"
    by (cases "write_pair tmp (ls ! i) (ls ! (i + 1)) c")
  have c1: "c1 \<noteq> []" using write_pair_nonempty [of tmp "ls ! i" "ls ! (i + 1)" c] wp by simp
  have "err = None \<and> double_loop tmp ls idx c1 = (c', None)"
    using a wp by (cases err) (auto split: if_splits)
  then show ?thesis using double_loop_keeps [OF c1, of tmp ls idx] by (metis fst_conv)
qed

lemma range_step2_Cons: "0 < n \<Longrightarrow> \<exists>idx. range_step2 n = 0 # idx"
proof -
  assume "0 < n"
  then have "0 < (n + 1) div 2" by simp
  then show ?thesis by (simp add: range_step2_def upt_conv_Cons)
qed

lemma write_double_nonempty:
  assumes "write2casava_dir_double tmp c ls = (c', None)" "ls \<noteq> []"
  shows "c' \<noteq> []"
proof -
  have "0 < length (sort ls)" using assms(2) by simp
  from range_step2_Cons [OF this] obtain idx where "range_step2 (length (sort ls)) = 0 # idx" ..
  then have "double_loop tmp (sort ls) (0 # idx) c = (c', None)"
    using assms(1) by (simp add: write2casava_dir_double_def Let_def)
  then show ?thesis by (rule double_loop_writes)
qed

lemma write_single_nonempty:
  assumes "write2casava_dir_single tmp c ls = (c', None)" "x \<in> set (listdir tmp)" "x \<in> set ls"
  shows "c' \<noteq> []"
  using assms single_loop_writes by (simp add: write2casava_dir_single_def)

lemma process_last_single:
  assumes "process_downloaded_sequences gzip w1 = Inr (ls_single, ls_paired, w2)"
    "ls_single \<noteq> []"
  shows "last ls_single \<in> set (listdir (scratch w2))"
proof -
  let ?d = "scratch (gzip w1)"
  obtain s p d where rl: "rename_loop (listdir ?d) [] [] ?d = Inr (s, p, d)"
    using assms(1)
    by (cases "rename_loop (listdir ?d) [] [] ?d")
       (auto simp: process_downloaded_sequences_def Let_def)
  then have "s = ls_single" "scratch w2 = d"
    using assms(1) by (auto simp: process_downloaded_sequences_def Let_def)
  with rename_loop_last_single [OF rl] assms(2) show ?thesis by simp
qed

text \<open>
  C1: after every successful run of \<^verbatim>\<open>get_sequences\<close> both containers hold a file. When
  the list of single-end names is empty the single-end container holds exactly the empty
  file \<^verbatim>\<open>xxx_00_L001_R1_001.fastq.gz\<close>, otherwise it is what the single-end Casava Writer
  returned for the list; when the list of paired-end names is empty the paired container
  holds exactly the two empty files \<^verbatim>\<open>xxx_00_L001_R1_001.fastq.gz\<close> and
  \<^verbatim>\<open>xxx_00_L001_R2_001.fastq.gz\<close>, otherwise it is what the paired Casava Writer returned.
\<close>

theorem get_sequences_outputs_nonempty:
  assumes "get_sequences tool gzip sample_ids general_retries threads w
             = Inr (casava_out_single, casava_out_double)"
  shows "casava_out_single \<noteq> [] \<and> casava_out_double \<noteq> []
       \<and> (\<exists>w1 ls_single ls_paired w2.
            run_fasterq_dump_for_all tool sample_ids threads general_retries (w\<lparr>scratch := []\<rparr>)
              = Inr w1
          \<and> process_downloaded_sequences gzip w1 = Inr (ls_single, ls_paired, w2)
          \<and> (if ls_single = []
              then casava_out_single = [(''xxx_00_L001_R1_001.fastq.gz'', [])]
              else write2casava_dir_single (scratch w2) [] ls_single = (casava_out_single, None))
          \<and> (if ls_paired = []
              then casava_out_double = [(''xxx_00_L001_R1_001.fastq.gz'', []),
                                        (''xxx_00_L001_R2_001.fastq.gz'', [])]
              else write2casava_dir_double (scratch w2) [] ls_paired
                     = (casava_out_double, None)))"
proof -
  let ?run = "run_fasterq_dump_for_all tool sample_ids threads general_retries (w\<lparr>scratch := []\<rparr>)"
  obtain w1 where w1: "?run = Inr w1"
    using assms by (cases ?run) (simp_all add: get_sequences_def)
  let ?proc = "process_downloaded_sequences gzip w1"
  obtain ls_single ls_paired w2 where pr: "?proc = Inr (ls_single, ls_paired, w2)"
    using assms w1 by (cases ?proc) (auto simp: get_sequences_def)
  define S where "S = (if length ls_single = 0
            then (AList.update ''xxx_00_L001_R1_001.fastq.gz'' [] [], None)
            else write2casava_dir_single (scratch w2) [] ls_single)"
  define D where "D = (if length ls_paired = 0
            then (AList.update ''xxx_00_L001_R2_001.fastq.gz'' []
                    (AList.update ''xxx_00_L001_R1_001.fastq.gz'' [] []), None)
            else write2casava_dir_double (scratch w2) [] ls_paired)"
  have gs: "get_sequences tool gzip sample_ids general_retries threads w =
      (case S of
         (cs, Some e) \<Rightarrow> Inl e
       | (cs, None) \<Rightarrow>
          (case D of (cd, Some e) \<Rightarrow> Inl e | (cd, None) \<Rightarrow> Inr (cs, cd)))"
    by (simp add: get_sequences_def w1 pr S_def D_def)
  obtain cs es where S: "S = (cs, es)" by (cases S)
  obtain cd ed where D: "D = (cd, ed)" by (cases D)
  have es: "es = None" using assms gs S by (cases es) auto
  have ed: "ed = None" using assms gs S D es by (cases ed) auto
  have eq: "cs = casava_out_single" "cd = casava_out_double"
    using assms gs S D es ed by simp_all
  have single: "if ls_single = []
              then casava_out_single = [(''xxx_00_L001_R1_001.fastq.gz'', [])]
              else write2casava_dir_single (scratch w2) [] ls_single = (casava_out_single, None)"
    using S es eq by (auto simp: S_def split: if_splits)
  have double: "if ls_paired = []
              then casava_out_double = [(''xxx_00_L001_R1_001.fastq.gz'', []),
                                        (''xxx_00_L001_R2_001.fastq.gz'', [])]
              else write2casava_dir_double (scratch w2) [] ls_paired
                     = (casava_out_double, None)"
    using D ed eq by (auto simp: D_def split: if_splits)
  have ns: "casava_out_single \<noteq> []"
  proof (cases "ls_single = []")
    case True
    with single show ?thesis by simp
  next
    case False
    with single have wr: "write2casava_dir_single (scratch w2) [] ls_single
                            = (casava_out_single, None)" by simp
    have "last ls_single \<in> set (listdir (scratch w2))"
      using process_last_single [OF pr False] .
    moreover have "last ls_single \<in> set ls_single" using False by simp
    ultimately show ?thesis using write_single_nonempty [OF wr] by blast
  qed
  have nd: "casava_out_double \<noteq> []"
  proof (cases "ls_paired = []")
    case True
    with double show ?thesis by simp
  next
    case False
    with double have "write2casava_dir_double (scratch w2) [] ls_paired
                        = (casava_out_double, None)" by simp
    then show ?thesis using False by (rule write_double_nonempty)
  qed
  from ns nd w1 pr single double show ?thesis by blast
qed

text \<open>Two complete runs: a single-end accession, and a paired-end one.\<close>

lemma run_single: "get_sequences tool_only_srr1 gzip_all [''SRR1''] 2 6 empty_world
     = Inr ([(''SRR1_00_L001_R1_001.fastq.gz'', one_record)],
            [(''xxx_00_L001_R1_001.fastq.gz'', []), (''xxx_00_L001_R2_001.fastq.gz'', [])])"
  by code_simp

lemma run_paired: "get_sequences tool_paired gzip_all [''SRR1''] 2 6 empty_world
     = Inr ([(''xxx_00_L001_R1_001.fastq.gz'', [])],
            [(''SRR1_00_L001_R1_001.fastq.gz'', one_record),
             (''SRR1_00_L001_R2_001.fastq.gz'', one_record)])"
  by code_simp

theorem get_sequences_outputs_nonempty_witness:
  "get_sequences tool_only_srr1 gzip_all [''SRR1''] 2 6 empty_world
     = Inr ([(''SRR1_00_L001_R1_001.fastq.gz'', one_record)],
            [(''xxx_00_L001_R1_001.fastq.gz'', []), (''xxx_00_L001_R2_001.fastq.gz'', [])])
   \<and> [(''SRR1_00_L001_R1_001.fastq.gz'', one_record)] \<noteq> []
   \<and> [(''xxx_00_L001_R1_001.fastq.gz'', []), (''xxx_00_L001_R2_001.fastq.gz'', [])] \<noteq> []
   \<and> get_sequences tool_paired gzip_all [''SRR1''] 2 6 empty_world
     = Inr ([(''xxx_00_L001_R1_001.fastq.gz'', [])],
            [(''SRR1_00_L001_R1_001.fastq.gz'', one_record),
             (''SRR1_00_L001_R2_001.fastq.gz'', one_record)])
   \<and> [(''xxx_00_L001_R1_001.fastq.gz'', [])] \<noteq> ([] :: dir)
   \<and> [(''SRR1_00_L001_R1_001.fastq.gz'', one_record),
       (''SRR1_00_L001_R2_001.fastq.gz'', one_record)] \<noteq> []"
  using get_sequences_outputs_nonempty [OF run_single]
    get_sequences_outputs_nonempty [OF run_paired] run_single run_paired
  by blast

end
